theory Spec2Isabelle
  imports Complex_Main
begin

section \<open>Arrays, errors and IEEE division\<close>

text \<open>
  The program (\<^verbatim>\<open>src/image_recovery/linalg.py\<close>) works on NumPy arrays. An array carries
  its shape next to its entries, so an array with an empty axis still knows its other axes.
  Floating-point numbers are modelled by exact reals (and \<^typ>\<open>complex\<close>): rounding, overflow
  and the sign of zero are outside the model. Every \<^verbatim>\<open>raise\<close> of the source, and every
  exception NumPy raises on the paths the source takes, is a value \<open>Inl e\<close>.
\<close>

datatype error = ValueError | IndexError | TypeError | LinAlgError

definition bindE :: "error + 'a \<Rightarrow> ('a \<Rightarrow> error + 'b) \<Rightarrow> error + 'b" where
  "bindE m f = (case m of Inl e \<Rightarrow> Inl e | Inr x \<Rightarrow> f x)"

record 'a array2 =
  shape0 :: nat
  shape1 :: nat
  rows :: "'a list list"

record array3 =
  dim0 :: nat
  dim1 :: nat
  dim2 :: nat
  cells :: "real list list list"

type_synonym cmat = "complex array2"

definition wf2 :: "'a array2 \<Rightarrow> bool" where
  "wf2 A = (length (rows A) = shape0 A \<and> list_all (\<lambda>r. length r = shape1 A) (rows A))"

definition wf3 :: "array3 \<Rightarrow> bool" where
  "wf3 Q = (length (cells Q) = dim0 Q \<and>
     list_all (\<lambda>r. length r = dim1 Q \<and> list_all (\<lambda>q. length q = dim2 Q) r) (cells Q))"

definition at2 :: "'a array2 \<Rightarrow> nat \<Rightarrow> nat \<Rightarrow> 'a" where
  "at2 A i j = rows A ! i ! j"

definition at3 :: "array3 \<Rightarrow> nat \<Rightarrow> nat \<Rightarrow> nat \<Rightarrow> real" where
  "at3 Q i j k = cells Q ! i ! j ! k"

definition mk2 :: "nat \<Rightarrow> nat \<Rightarrow> (nat \<Rightarrow> nat \<Rightarrow> 'a) \<Rightarrow> 'a array2" where
  "mk2 r c f = \<lparr>shape0 = r, shape1 = c, rows = map (\<lambda>i. map (f i) [0..<c]) [0..<r]\<rparr>"

definition mk3 :: "nat \<Rightarrow> nat \<Rightarrow> nat \<Rightarrow> (nat \<Rightarrow> nat \<Rightarrow> nat \<Rightarrow> real) \<Rightarrow> array3" where
  "mk3 n m d f = \<lparr>dim0 = n, dim1 = m, dim2 = d,
     cells = map (\<lambda>i. map (\<lambda>j. map (f i j) [0..<d]) [0..<m]) [0..<n]\<rparr>"

definition map_array2 :: "('a \<Rightarrow> 'b) \<Rightarrow> 'a array2 \<Rightarrow> 'b array2" where
  "map_array2 f A = \<lparr>shape0 = shape0 A, shape1 = shape1 A, rows = map (map f) (rows A)\<rparr>"

text \<open>\<^verbatim>\<open>np.hstack([A, B])\<close> and \<^verbatim>\<open>np.vstack([A, B])\<close>; the source calls them on blocks of
  equal shape only, where they cannot raise.\<close>

definition hstack :: "'a array2 \<Rightarrow> 'a array2 \<Rightarrow> 'a array2" where
  "hstack A B = \<lparr>shape0 = shape0 A, shape1 = shape1 A + shape1 B,
     rows = map (\<lambda>(a, b). a @ b) (zip (rows A) (rows B))\<rparr>"

definition vstack :: "'a array2 \<Rightarrow> 'a array2 \<Rightarrow> 'a array2" where
  "vstack A B = \<lparr>shape0 = shape0 A + shape0 B, shape1 = shape1 A, rows = rows A @ rows B\<rparr>"

text \<open>\<^verbatim>\<open>np.tile(mask, (2, 2))\<close>: the mask repeated in the four quadrants.\<close>

definition tile22 :: "'a array2 \<Rightarrow> 'a array2" where
  "tile22 A = vstack (hstack A A) (hstack A A)"

text \<open>
  Division of two finite floats: NumPy does not raise on a zero divisor, the quotient is
  \<open>inf\<close>, \<open>-inf\<close> or \<open>nan\<close>, and every comparison with \<open>nan\<close> is false.
\<close>

datatype fl = Fin real | PInf | NInf | NaN

definition fdiv :: "real \<Rightarrow> real \<Rightarrow> fl" where
  "fdiv a b = (if b \<noteq> 0 then Fin (a / b) else if 0 < a then PInf else if a < 0 then NInf else NaN)"

fun fl_less :: "fl \<Rightarrow> real \<Rightarrow> bool" where
  "fl_less (Fin a) r = (a < r)"
| "fl_less NInf r = True"
| "fl_less PInf r = False"
| "fl_less NaN r = False"

fun fl_greater :: "fl \<Rightarrow> real \<Rightarrow> bool" where
  "fl_greater (Fin a) r = (r < a)"
| "fl_greater PInf r = True"
| "fl_greater NInf r = False"
| "fl_greater NaN r = False"

section \<open>Quaternion algebra\<close>

text \<open>\<^verbatim>\<open>conjugate\<close>: \<^verbatim>\<open>np.concatenate([Q[:, :, :1], -Q[:, :, 1:]], axis=2)\<close>.\<close>

definition conjugate :: "array3 \<Rightarrow> error + array3" where
  "conjugate Q =
     (if dim2 Q \<noteq> 4 then Inl ValueError
      else Inr \<lparr>dim0 = dim0 Q, dim1 = dim1 Q, dim2 = min 1 (dim2 Q) + (dim2 Q - 1),
                cells = map (map (\<lambda>q. take 1 q @ map uminus (drop 1 q))) (cells Q)\<rparr>)"

text \<open>\<^verbatim>\<open>frobenius_norm\<close>: \<^verbatim>\<open>np.sqrt(np.power(Q, 2).sum())\<close>.\<close>

definition frobenius_norm :: "array3 \<Rightarrow> error + real" where
  "frobenius_norm Q =
     (if dim2 Q \<noteq> 4 then Inl ValueError
      else Inr (sqrt (sum_list (map (\<lambda>x. x ^ 2) (concat (concat (cells Q)))))))"

text \<open>
  \<^verbatim>\<open>qdot\<close>. \<open>permute_sign Q p s\<close> is \<^verbatim>\<open>Q[:, :, p] * s[None, None, :]\<close> and \<open>einsum_isk_sjk\<close> is
  \<^verbatim>\<open>np.einsum("isk, sjk -> ij", A, B)\<close>; the four contractions are stacked along axis 2.
\<close>

definition permute_sign :: "array3 \<Rightarrow> nat list \<Rightarrow> real list \<Rightarrow> array3" where
  "permute_sign Q p s = mk3 (dim0 Q) (dim1 Q) 4 (\<lambda>i j k. at3 Q i j (p ! k) * s ! k)"

definition einsum_isk_sjk :: "array3 \<Rightarrow> array3 \<Rightarrow> real array2" where
  "einsum_isk_sjk A B = mk2 (dim0 A) (dim1 B)
     (\<lambda>i j. sum_list (map (\<lambda>s. sum_list (map (\<lambda>k. at3 A i s k * at3 B s j k) [0..<dim2 A]))
                          [0..<dim1 A]))"

definition stack4 :: "nat \<Rightarrow> nat \<Rightarrow> real array2 list \<Rightarrow> array3" where
  "stack4 n m As = mk3 n m 4 (\<lambda>i j k. at2 (As ! k) i j)"

definition qdot :: "array3 \<Rightarrow> array3 \<Rightarrow> error + array3" where
  "qdot Q1 Q2 =
     (if (dim2 Q1 \<noteq> 4 \<or> dim2 Q2 \<noteq> 4) \<or> dim1 Q1 \<noteq> dim0 Q2 then Inl ValueError
      else Inr (stack4 (dim0 Q1) (dim1 Q2)
        [einsum_isk_sjk Q1 (permute_sign Q2 [0, 1, 2, 3] [1, -1, -1, -1]),
         einsum_isk_sjk Q1 (permute_sign Q2 [1, 0, 3, 2] [1, 1, 1, -1]),
         einsum_isk_sjk Q1 (permute_sign Q2 [2, 3, 0, 1] [1, -1, 1, 1]),
         einsum_isk_sjk Q1 (permute_sign Q2 [3, 2, 1, 0] [1, 1, -1, 1])]))"

section \<open>Matrix transformations\<close>

text \<open>\<^verbatim>\<open>qm2cm\<close>: the block matrix \<open>[[Qa, Qb], [-conj Qb, conj Qa]]\<close> and the tiled mask.\<close>

definition qm2cm :: "array3 \<Rightarrow> bool array2 option \<Rightarrow> error + (cmat \<times> bool array2 option)" where
  "qm2cm Q msk =
     (if dim2 Q \<noteq> 4 then Inl ValueError
      else
        let Qa = mk2 (dim0 Q) (dim1 Q) (\<lambda>i j. Complex (at3 Q i j 0) (at3 Q i j 1));
            Qb = mk2 (dim0 Q) (dim1 Q) (\<lambda>i j. Complex (at3 Q i j 2) (at3 Q i j 3));
            C = vstack (hstack Qa Qb)
                       (hstack (map_array2 uminus (map_array2 cnj Qb)) (map_array2 cnj Qa));
            C_mask = (case msk of None \<Rightarrow> None | Some m \<Rightarrow> Some (tile22 m))
        in Inr (C, C_mask))"

text \<open>\<^verbatim>\<open>cm2qm\<close>: the top-left and top-right quadrants, split into real and imaginary parts.\<close>

definition cm2qm :: "cmat \<Rightarrow> error + array3" where
  "cm2qm C =
     (if shape0 C mod 2 \<noteq> 0 \<or> shape1 C mod 2 \<noteq> 0 then Inl ValueError
      else
        let n = shape0 C div 2; m = shape1 C div 2;
            Qa = \<lparr>shape0 = n, shape1 = m, rows = map (take m) (take n (rows C))\<rparr>;
            Qb = \<lparr>shape0 = n, shape1 = shape1 C - m, rows = map (drop m) (take n (rows C))\<rparr>
        in Inr (stack4 n m [map_array2 Re Qa, map_array2 Im Qa, map_array2 Re Qb, map_array2 Im Qb]))"

text \<open>The Frobenius norm \<^verbatim>\<open>np.linalg.norm\<close> computes for a complex matrix.\<close>

definition cnorm :: "cmat \<Rightarrow> real" where
  "cnorm A = sqrt (sum_list (map (\<lambda>z. (cmod z) ^ 2) (concat (rows A))))"

section \<open>The external numerical library\<close>

text \<open>
  \<^verbatim>\<open>scipy.linalg.pinv\<close>, \<^verbatim>\<open>scipy.linalg.eigvalsh\<close> and NumPy's global random generator are
  not code of the repository: the completion routine takes them as parameters. The generator
  is a state of type \<open>'g\<close>; \<open>seed_state\<close> is the state \<^verbatim>\<open>np.random.seed\<close> installs and
  \<open>next_double\<close> draws one number from \<open>[0, 1)\<close>.
\<close>

record linalg =
  pinv :: "cmat \<Rightarrow> error + cmat"
  eigvalsh :: "cmat \<Rightarrow> error + real list"

record 'g rng =
  seed_state :: "int \<Rightarrow> 'g"
  next_double :: "'g \<Rightarrow> real \<times> 'g"

text \<open>
  \<^verbatim>\<open>np.random.seed(random_state)\<close> replaces the global generator state \<open>g\<close>, whatever it
  was: by the state of the seed, or, for \<^verbatim>\<open>None\<close>, by a state made from fresh operating
  system entropy. A seed outside \<open>[0, 2^32)\<close> raises.
\<close>

definition np_random_seed :: "'g rng \<Rightarrow> int option \<Rightarrow> int \<Rightarrow> 'g \<Rightarrow> error + 'g" where
  "np_random_seed R random_state entropy g =
     (case random_state of
        None \<Rightarrow> Inr (seed_state R entropy)
      | Some s \<Rightarrow> if 0 \<le> s \<and> s < 2 ^ 32 then Inr (seed_state R s) else Inl ValueError)"

primrec draws :: "('g \<Rightarrow> real \<times> 'g) \<Rightarrow> nat \<Rightarrow> 'g \<Rightarrow> real list \<times> 'g" where
  "draws nd 0 g = ([], g)"
| "draws nd (Suc n) g =
     (case nd g of (x, g1) \<Rightarrow> case draws nd n g1 of (xs, g2) \<Rightarrow> (x # xs, g2))"

text \<open>\<^verbatim>\<open>np.random.uniform(size=(r, c))\<close>: \<open>r * c\<close> draws, filled row by row.\<close>

definition uniform :: "'g rng \<Rightarrow> int \<Rightarrow> int \<Rightarrow> 'g \<Rightarrow> error + (real array2 \<times> 'g)" where
  "uniform R r c g =
     (if r < 0 \<or> c < 0 then Inl ValueError
      else case draws (next_double R) (nat r * nat c) g of
        (xs, g1) \<Rightarrow> Inr (mk2 (nat r) (nat c) (\<lambda>i j. xs ! (i * nat c + j)), g1))"

text \<open>\<^verbatim>\<open>A + 1j*B\<close> for two real arrays of one shape.\<close>

definition complex_of_parts :: "real array2 \<Rightarrow> real array2 \<Rightarrow> cmat" where
  "complex_of_parts A B = mk2 (shape0 A) (shape1 A) (\<lambda>i j. Complex (at2 A i j) (at2 B i j))"

section \<open>Complex matrix operations used by the completion routine\<close>

text \<open>\<^verbatim>\<open>A.dot(B)\<close> raises when the inner dimensions differ.\<close>

definition dot :: "cmat \<Rightarrow> cmat \<Rightarrow> error + cmat" where
  "dot A B =
     (if shape1 A \<noteq> shape0 B then Inl ValueError
      else Inr (mk2 (shape0 A) (shape1 B)
        (\<lambda>i j. sum_list (map (\<lambda>k. at2 A i k * at2 B k j) [0..<shape1 A]))))"

text \<open>\<^verbatim>\<open>np.conj(A.T)\<close>.\<close>

definition conj_T :: "cmat \<Rightarrow> cmat" where
  "conj_T A = mk2 (shape1 A) (shape0 A) (\<lambda>i j. cnj (at2 A j i))"

text \<open>\<^verbatim>\<open>reg_coef*np.eye(c_rank)\<close>; \<^verbatim>\<open>np.eye\<close> raises on a negative size.\<close>

definition reg_eye :: "real \<Rightarrow> int \<Rightarrow> error + cmat" where
  "reg_eye reg c =
     (if c < 0 then Inl ValueError
      else Inr (mk2 (nat c) (nat c) (\<lambda>i j. if i = j then complex_of_real reg else 0)))"

text \<open>
  Elementwise \<open>+\<close> and \<open>-\<close> of two matrices follow NumPy's broadcasting: along each axis the
  lengths are equal or one of them is 1 (that operand is repeated), otherwise the operation
  raises.
\<close>

definition bc_dim :: "nat \<Rightarrow> nat \<Rightarrow> nat option" where
  "bc_dim a b = (if a = b then Some a else if a = 1 then Some b else if b = 1 then Some a else None)"

definition bc_at :: "'a array2 \<Rightarrow> nat \<Rightarrow> nat \<Rightarrow> 'a" where
  "bc_at A i j = at2 A (if shape0 A = 1 then 0 else i) (if shape1 A = 1 then 0 else j)"

definition broadcast2 :: "('a \<Rightarrow> 'a \<Rightarrow> 'a) \<Rightarrow> 'a array2 \<Rightarrow> 'a array2 \<Rightarrow> error + 'a array2" where
  "broadcast2 f A B =
     (case bc_dim (shape0 A) (shape0 B) of
        None \<Rightarrow> Inl ValueError
      | Some r \<Rightarrow>
          (case bc_dim (shape1 A) (shape1 B) of
             None \<Rightarrow> Inl ValueError
           | Some c \<Rightarrow> Inr (mk2 r c (\<lambda>i j. f (bc_at A i j) (bc_at B i j)))))"

text \<open>Python slicing \<^verbatim>\<open>xs[:c]\<close> of a sequence of length \<open>n\<close> keeps this many entries.\<close>

definition py_stop :: "int \<Rightarrow> nat \<Rightarrow> nat" where
  "py_stop c n = (if 0 \<le> c then min (nat c) n else n - nat (- c))"

definition slice_cols :: "'a array2 \<Rightarrow> int \<Rightarrow> 'a array2" where
  "slice_cols A c = \<lparr>shape0 = shape0 A, shape1 = py_stop c (shape1 A),
     rows = map (take (py_stop c (shape1 A))) (rows A)\<rparr>"

definition slice_rows :: "'a array2 \<Rightarrow> int \<Rightarrow> 'a array2" where
  "slice_rows A c = \<lparr>shape0 = py_stop c (shape0 A), shape1 = shape1 A,
     rows = take (py_stop c (shape0 A)) (rows A)\<rparr>"

text \<open>Python's \<^verbatim>\<open>int(x)\<close> on a float truncates towards zero.\<close>

definition py_int :: "real \<Rightarrow> int" where
  "py_int x = (if 0 \<le> x then \<lfloor>x\<rfloor> else \<lceil>x\<rceil>)"

text \<open>
  \<^verbatim>\<open>np.argmax\<close> on a non-empty array of quotients: the first \<open>nan\<close> if there is one,
  otherwise the first occurrence of the greatest value.
\<close>

fun fl_le :: "fl \<Rightarrow> fl \<Rightarrow> bool" where
  "fl_le NaN y = False"
| "fl_le x NaN = False"
| "fl_le NInf y = True"
| "fl_le x PInf = True"
| "fl_le (Fin a) (Fin b) = (a \<le> b)"
| "fl_le x y = False"

fun first_index :: "('a \<Rightarrow> bool) \<Rightarrow> 'a list \<Rightarrow> nat" where
  "first_index p [] = 0"
| "first_index p (x # xs) = (if p x then 0 else Suc (first_index p xs))"

definition argmax :: "fl list \<Rightarrow> nat" where
  "argmax qs =
     (if list_ex (\<lambda>q. q = NaN) qs then first_index (\<lambda>q. q = NaN) qs
      else first_index (\<lambda>q. list_all (\<lambda>y. fl_le y q) qs) qs)"

section \<open>Matrix recovery: \<^verbatim>\<open>lrqmc\<close>\<close>

text \<open>
  The rank the run starts with (the \<^verbatim>\<open>if (not init_rank) or (init_rank > min(...))\<close>
  statement). \<^verbatim>\<open>not init_rank\<close> holds for \<^verbatim>\<open>None\<close> and for 0.
\<close>

definition initial_rank :: "int option \<Rightarrow> nat \<Rightarrow> nat \<Rightarrow> int" where
  "initial_rank init_rank N M =
     (case init_rank of
        None \<Rightarrow> int (min N M)
      | Some r \<Rightarrow> if r = 0 \<or> int (min N M) < r then int (min N M) else r)"

text \<open>The four \<^verbatim>\<open>np.random.uniform\<close> calls that make \<open>U\<close> and \<open>V\<close>, in the source's order.\<close>

definition init_factors :: "'g rng \<Rightarrow> nat \<Rightarrow> nat \<Rightarrow> int \<Rightarrow> 'g \<Rightarrow> error + (cmat \<times> cmat \<times> 'g)" where
  "init_factors R N M c g =
     bindE (uniform R (int (2 * N)) c g) (\<lambda>(Ur, g1).
     bindE (uniform R (int (2 * N)) c g1) (\<lambda>(Ui, g2).
     bindE (uniform R c (int (2 * M)) g2) (\<lambda>(Vr, g3).
     bindE (uniform R c (int (2 * M)) g3) (\<lambda>(Vi, g4).
     Inr (complex_of_parts Ur Ui, complex_of_parts Vr Vi, g4)))))"

text \<open>\<^verbatim>\<open>np.linalg.norm(X - U.dot(V))\<close>.\<close>

definition residual :: "cmat \<Rightarrow> cmat \<Rightarrow> cmat \<Rightarrow> error + real" where
  "residual X U V =
     bindE (dot U V) (\<lambda>UV.
     bindE (broadcast2 (\<lambda>a b. a - b) X UV) (\<lambda>D.
     Inr (cnorm D)))"

text \<open>The two regularised least-squares updates, in the order Python evaluates them.\<close>

definition update_U :: "linalg \<Rightarrow> cmat \<Rightarrow> cmat \<Rightarrow> int \<Rightarrow> real \<Rightarrow> error + cmat" where
  "update_U L X V c reg =
     bindE (dot X (conj_T V)) (\<lambda>XVh.
     bindE (dot V (conj_T V)) (\<lambda>VVh.
     bindE (reg_eye reg c) (\<lambda>E.
     bindE (broadcast2 (\<lambda>a b. a + b) VVh E) (\<lambda>S.
     bindE (pinv L S) (\<lambda>P.
     dot XVh P)))))"

definition update_V :: "linalg \<Rightarrow> cmat \<Rightarrow> cmat \<Rightarrow> int \<Rightarrow> real \<Rightarrow> error + cmat" where
  "update_V L X U c reg =
     bindE (dot (conj_T U) U) (\<lambda>UhU.
     bindE (reg_eye reg c) (\<lambda>E.
     bindE (broadcast2 (\<lambda>a b. a + b) UhU E) (\<lambda>S.
     bindE (pinv L S) (\<lambda>P.
     bindE (dot (conj_T U) X) (\<lambda>UhX.
     dot P UhX)))))"

text \<open>
  \<^verbatim>\<open>X = X0.copy(); X[~mask_c] += (U.dot(V))[~mask_c]\<close>. A boolean index of another shape
  than the indexed array raises \<^verbatim>\<open>IndexError\<close>; \<^verbatim>\<open>~None\<close> raises \<^verbatim>\<open>TypeError\<close>.
\<close>

definition reimpose :: "cmat \<Rightarrow> bool array2 option \<Rightarrow> cmat \<Rightarrow> cmat \<Rightarrow> error + cmat" where
  "reimpose X0 mask_c U V =
     (case mask_c of
        None \<Rightarrow> Inl TypeError
      | Some mc \<Rightarrow>
          if shape0 mc \<noteq> shape0 X0 \<or> shape1 mc \<noteq> shape1 X0 then Inl IndexError
          else bindE (dot U V) (\<lambda>UV.
            if shape0 mc \<noteq> shape0 UV \<or> shape1 mc \<noteq> shape1 UV then Inl IndexError
            else Inr (mk2 (shape0 X0) (shape1 X0)
              (\<lambda>i j. if at2 mc i j then at2 X0 i j else at2 X0 i j + at2 UV i j))))"

text \<open>
  The rank overestimation test: the eigenvalues of \<open>U\<^sup>H U\<close> in descending order, the
  quotients of neighbours, the index of the greatest quotient and \<open>mu\<close>. \<^verbatim>\<open>np.argmax\<close>
  raises on an empty array.
\<close>

definition rank_check :: "linalg \<Rightarrow> cmat \<Rightarrow> int \<Rightarrow> error + (nat \<times> fl)" where
  "rank_check L U c =
     bindE (dot (conj_T U) U) (\<lambda>UhU.
     bindE (eigvalsh L UhU) (\<lambda>es.
       let eigvs = rev (sort es);
           quots = map (\<lambda>(a, b). fdiv a b) (zip (butlast eigvs) (tl eigvs))
       in if quots = [] then Inl ValueError
          else
            let max_ind = argmax quots;
                mu = fdiv (real_of_int (c - 1) * eigvs ! max_ind)
                          (sum_list eigvs - eigvs ! max_ind)
            in Inr (max_ind, mu)))"

text \<open>
  The product \<^verbatim>\<open>c_rank*rank_mult\<close> is a double: the exact product rounded to the nearest
  number with a significand of 53 bits, a tie going to the even one (IEEE 754 binary64;
  overflow and subnormal numbers are outside the model; the rank is converted to a double
  without rounding while it is below \<open>2\<^sup>5\<^sup>3\<close>). \<^verbatim>\<open>int\<close> truncates it next, so this
  rounding can decide the rank, and it is modelled: \<open>int(10 * 0.7)\<close> is 7, while the exact
  product of 10 and the double nearest to 0.7 is below 7.
\<close>

definition round_even :: "real \<Rightarrow> int" where
  "round_even y =
     (if y - of_int \<lfloor>y\<rfloor> < 1 / 2 then \<lfloor>y\<rfloor>
      else if 1 / 2 < y - of_int \<lfloor>y\<rfloor> then \<lfloor>y\<rfloor> + 1
      else if even \<lfloor>y\<rfloor> then \<lfloor>y\<rfloor> else \<lfloor>y\<rfloor> + 1)"

definition round_double :: "real \<Rightarrow> real" where
  "round_double x =
     (if x = 0 then 0
      else of_int (round_even (x / 2 powr (of_int \<lfloor>log 2 \<bar>x\<bar>\<rfloor> - 52)))
           * 2 powr (of_int \<lfloor>log 2 \<bar>x\<bar>\<rfloor> - 52))"

definition double_mul :: "real \<Rightarrow> real \<Rightarrow> real" where
  "double_mul a b = round_double (a * b)"

text \<open>The rank after the test: \<^verbatim>\<open>max(max_ind + 2, int(c_rank*rank_mult))\<close> when it fires.\<close>

definition shrunk_rank :: "nat \<Rightarrow> int \<Rightarrow> real \<Rightarrow> int" where
  "shrunk_rank max_ind c rank_mult =
     max (int max_ind + 2) (py_int (double_mul (real_of_int c) rank_mult))"

record lrqmc_params =
  p_X0 :: cmat
  p_mask_c :: "bool array2 option"
  p_reg_coef :: real
  p_max_iter :: int
  p_rel_tol :: real
  p_rot :: real
  p_rank_mult :: real

record lrqmc_state =
  s_X :: cmat
  s_U :: cmat
  s_V :: cmat
  s_c_rank :: int
  s_norms :: "real list"
  s_ix :: nat
  s_flag :: bool

text \<open>
  One pass through the body of \<^verbatim>\<open>while flag:\<close>. The progress messages are printed text
  only and are left out. The write \<^verbatim>\<open>norms[ix + 1] = ...\<close> raises \<^verbatim>\<open>IndexError\<close>
  when \<open>ix + 1\<close> is not an index of the array allocated before the loop.
\<close>

definition lrqmc_step :: "linalg \<Rightarrow> lrqmc_params \<Rightarrow> lrqmc_state \<Rightarrow> error + lrqmc_state" where
  "lrqmc_step L P s =
     bindE (update_U L (s_X s) (s_V s) (s_c_rank s) (p_reg_coef P)) (\<lambda>U1.
     bindE (update_V L (s_X s) U1 (s_c_rank s) (p_reg_coef P)) (\<lambda>V1.
     bindE (reimpose (p_X0 P) (p_mask_c P) U1 V1) (\<lambda>X1.
     bindE (rank_check L U1 (s_c_rank s)) (\<lambda>(max_ind, mu).
       let fired = fl_greater mu (p_rot P);
           c2 = (if fired then shrunk_rank max_ind (s_c_rank s) (p_rank_mult P) else s_c_rank s);
           U2 = (if fired then slice_cols U1 c2 else U1);
           V2 = (if fired then slice_rows V1 c2 else V1)
       in bindE (residual X1 U2 V2) (\<lambda>n.
            if length (s_norms s) \<le> s_ix s + 1 then Inl IndexError
            else
              let norms1 = (s_norms s)[s_ix s + 1 := n];
                  s1 = \<lparr>s_X = X1, s_U = U2, s_V = V2, s_c_rank = c2, s_norms = norms1,
                        s_ix = s_ix s, s_flag = True\<rparr>
              in if fl_less (fdiv \<bar>norms1 ! (s_ix s + 1) - norms1 ! s_ix s\<bar> (norms1 ! s_ix s))
                            (p_rel_tol P)
                 then Inr (s1\<lparr>s_flag := False\<rparr>)
                 else if p_max_iter P \<le> int (s_ix s) then Inr (s1\<lparr>s_flag := False\<rparr>)
                 else Inr (s1\<lparr>s_ix := s_ix s + 1\<rparr>))))))"

lemma bindE_Inr_iff: "bindE m f = Inr y \<longleftrightarrow> (\<exists>x. m = Inr x \<and> f x = Inr y)"
  by (cases m) (simp_all add: bindE_def)

lemma lrqmc_step_progress:
  assumes "lrqmc_step L P s = Inr s1"
  shows "length (s_norms s1) = length (s_norms s)"
    and "s_ix s + 1 < length (s_norms s)"
    and "s_flag s1 \<Longrightarrow> s_ix s1 = s_ix s + 1"
    and "\<not> s_flag s1 \<Longrightarrow> s_ix s1 = s_ix s"
  using assms
  by (auto simp: lrqmc_step_def bindE_Inr_iff Let_def split: if_splits prod.splits)

function lrqmc_loop :: "linalg \<Rightarrow> lrqmc_params \<Rightarrow> lrqmc_state \<Rightarrow> error + lrqmc_state" where
  "lrqmc_loop L P s =
     (if s_flag s
      then (case lrqmc_step L P s of Inl e \<Rightarrow> Inl e | Inr s1 \<Rightarrow> lrqmc_loop L P s1)
      else Inr s)"
  by pat_completeness auto
termination
proof (relation "measure (\<lambda>(L, P, s). 2 * (length (s_norms s) - s_ix s) + (if s_flag s then 1 else 0))")
  show "wf (measure (\<lambda>(L, P, s). 2 * (length (s_norms s) - s_ix s) + (if s_flag s then 1 else 0)))"
    by simp
next
  fix L :: linalg and P :: lrqmc_params and s s1 :: lrqmc_state
  assume flag: "s_flag s" and step: "lrqmc_step L P s = Inr s1"
  note pr = lrqmc_step_progress [OF step]
  show "((L, P, s1), (L, P, s))
      \<in> measure (\<lambda>(L, P, s). 2 * (length (s_norms s) - s_ix s) + (if s_flag s then 1 else 0))"
  proof (cases "s_flag s1")
    case True
    with pr(1,2) pr(3) flag show ?thesis by simp
  next
    case False
    with pr(1,2) pr(4) flag show ?thesis by simp
  qed
qed

declare lrqmc_loop.simps [simp del]

text \<open>
  Everything before the loop: the complex embedding, the starting rank, the seeded factors,
  the array \<^verbatim>\<open>norms = np.zeros(max_iter + 1)\<close> and its entry 0. \<open>g\<close> is the state of the
  global generator when \<^verbatim>\<open>lrqmc\<close> is called.
\<close>

definition lrqmc_init ::
  "'g rng \<Rightarrow> 'g \<Rightarrow> int \<Rightarrow> array3 \<Rightarrow> bool array2 \<Rightarrow> int option \<Rightarrow> real \<Rightarrow> int \<Rightarrow> real \<Rightarrow> real \<Rightarrow> real
   \<Rightarrow> int option \<Rightarrow> error + (lrqmc_params \<times> lrqmc_state)" where
  "lrqmc_init R g entropy qmat msk init_rank reg_coef max_iter rel_tol rot rank_mult random_state =
     bindE (qm2cm qmat (Some msk)) (\<lambda>(X, mask_c).
       let c_rank = initial_rank init_rank (dim0 qmat) (dim1 qmat)
       in bindE (np_random_seed R random_state entropy g) (\<lambda>g0.
          bindE (init_factors R (dim0 qmat) (dim1 qmat) c_rank g0) (\<lambda>(U, V, g1).
          if max_iter + 1 < 0 then Inl ValueError
          else bindE (residual X U V) (\<lambda>n.
            if nat (max_iter + 1) = 0 then Inl IndexError
            else Inr (\<lparr>p_X0 = X, p_mask_c = mask_c, p_reg_coef = reg_coef, p_max_iter = max_iter,
                        p_rel_tol = rel_tol, p_rot = rot, p_rank_mult = rank_mult\<rparr>,
                      \<lparr>s_X = X, s_U = U, s_V = V, s_c_rank = c_rank,
                        s_norms = (replicate (nat (max_iter + 1)) 0)[0 := n],
                        s_ix = 0, s_flag = True\<rparr>)))))"

text \<open>
  \<^verbatim>\<open>lrqmc\<close>. The result is the restored image, \<open>U\<close>, \<open>V\<close> and, when \<^verbatim>\<open>return_norms\<close> is
  set, the array \<^verbatim>\<open>norms\<close>.
\<close>

definition lrqmc ::
  "linalg \<Rightarrow> 'g rng \<Rightarrow> 'g \<Rightarrow> int \<Rightarrow> array3 \<Rightarrow> bool array2 \<Rightarrow> int option \<Rightarrow> real \<Rightarrow> int \<Rightarrow> real \<Rightarrow> real
   \<Rightarrow> real \<Rightarrow> bool \<Rightarrow> int option \<Rightarrow> error + (array3 \<times> cmat \<times> cmat \<times> real list option)" where
  "lrqmc L R g entropy qmat msk init_rank reg_coef max_iter rel_tol rot rank_mult return_norms
         random_state =
     bindE (lrqmc_init R g entropy qmat msk init_rank reg_coef max_iter rel_tol rot rank_mult
              random_state) (\<lambda>(P, s0).
     bindE (lrqmc_loop L P s0) (\<lambda>s.
     bindE (cm2qm (s_X s)) (\<lambda>Q.
     Inr (Q, s_U s, s_V s, if return_norms then Some (s_norms s) else None))))"

section \<open>Notions used to state the properties\<close>

text \<open>The convergence test of the loop: the relative change of the recorded norm is below
  \<^verbatim>\<open>rel_tol\<close>, where \<open>n\<close> is the norm just computed.\<close>

definition converged :: "lrqmc_params \<Rightarrow> lrqmc_state \<Rightarrow> real \<Rightarrow> bool" where
  "converged P s n = fl_less (fdiv \<bar>n - s_norms s ! s_ix s\<bar> (s_norms s ! s_ix s)) (p_rel_tol P)"

text \<open>The state after \<open>k\<close> passes through the loop body.\<close>

fun lrqmc_steps :: "linalg \<Rightarrow> lrqmc_params \<Rightarrow> nat \<Rightarrow> lrqmc_state \<Rightarrow> error + lrqmc_state" where
  "lrqmc_steps L P 0 s = Inr s"
| "lrqmc_steps L P (Suc k) s = bindE (lrqmc_step L P s) (lrqmc_steps L P k)"

text \<open>
  What the properties of the rank need from the library: \<^verbatim>\<open>pinv\<close> of an \<open>n x m\<close> matrix is
  \<open>m x n\<close>, and \<^verbatim>\<open>eigvalsh\<close> of an \<open>n x n\<close> matrix returns \<open>n\<close> eigenvalues.
\<close>

definition lib_ok :: "linalg \<Rightarrow> bool" where
  "lib_ok L =
     ((\<forall>A B. pinv L A = Inr B \<longrightarrow> shape0 B = shape1 A \<and> shape1 B = shape0 A) \<and>
      (\<forall>A es. eigvalsh L A = Inr es \<longrightarrow> length es = shape0 A))"

text \<open>
  The rank test, said without the model's float type. \<open>gram U\<close> is \<open>U\<^sup>H U\<close> entry by entry.
  For eigenvalues \<open>ev\<close> in descending order, the quotient \<open>ev ! j / ev ! (j + 1)\<close> is \<open>nan\<close>
  when both are 0 (\<open>ratio_nan\<close>); \<open>ratio_le ev j k\<close> says that quotient \<open>j\<close> is at most
  quotient \<open>k\<close>, where a positive number over 0 is \<open>inf\<close> and a negative one \<open>-inf\<close>.
  \<open>max_ratio_index ev k\<close>: \<open>k\<close> is the index of the first \<open>nan\<close> quotient if there is one,
  and otherwise the first index of a greatest quotient. \<open>overestimated ev k r rot\<close> is the
  test \<open>mu > rot\<close> for \<open>mu = (r - 1) * ev ! k / (sum ev - ev ! k)\<close>.
\<close>

definition gram :: "cmat \<Rightarrow> cmat" where
  "gram U = mk2 (shape1 U) (shape1 U)
     (\<lambda>i j. sum_list (map (\<lambda>t. cnj (at2 U t i) * at2 U t j) [0..<shape0 U]))"

definition ratio_nan :: "real list \<Rightarrow> nat \<Rightarrow> bool" where
  "ratio_nan ev j = (ev ! j = 0 \<and> ev ! (j + 1) = 0)"

definition ratio_le :: "real list \<Rightarrow> nat \<Rightarrow> nat \<Rightarrow> bool" where
  "ratio_le ev j k =
     ((ev ! (j + 1) = 0 \<and> ev ! j < 0) \<or> (ev ! (k + 1) = 0 \<and> 0 < ev ! k) \<or>
      (ev ! (j + 1) \<noteq> 0 \<and> ev ! (k + 1) \<noteq> 0 \<and> ev ! j / ev ! (j + 1) \<le> ev ! k / ev ! (k + 1)))"

definition max_ratio_index :: "real list \<Rightarrow> nat \<Rightarrow> bool" where
  "max_ratio_index ev k =
     (k + 1 < length ev \<and>
      (if list_ex (ratio_nan ev) [0..<length ev - 1]
       then ratio_nan ev k \<and> list_all (\<lambda>j. \<not> ratio_nan ev j) [0..<k]
       else list_all (\<lambda>j. ratio_le ev j k) [0..<length ev - 1] \<and>
            list_all (\<lambda>j. \<not> ratio_le ev k j) [0..<k]))"

definition overestimated :: "real list \<Rightarrow> nat \<Rightarrow> int \<Rightarrow> real \<Rightarrow> bool" where
  "overestimated ev k r rot =
     (if sum_list ev - ev ! k \<noteq> 0
      then rot < real_of_int (r - 1) * ev ! k / (sum_list ev - ev ! k)
      else 0 < real_of_int (r - 1) * ev ! k)"

section \<open>Example data\<close>

text \<open>A 2 x 2 image, its complex embedding, and arrays of a wrong shape.\<close>

definition ex_img :: array3 where
  "ex_img = \<lparr>dim0 = 2, dim1 = 2, dim2 = 4,
     cells = [[[1, 0, 0, 0], [0, 2, 0, 0]], [[0, 0, 3, 0], [0, 0, 0, 4]]]\<rparr>"

definition ex_C :: cmat where
  "ex_C = \<lparr>shape0 = 4, shape1 = 4,
     rows = [[1, Complex 0 2, 0, 0],
             [0, 0, 3, Complex 0 4],
             [0, 0, 1, Complex 0 (- 2)],
             [- 3, Complex 0 4, 0, 0]]\<rparr>"

definition ex_rgb :: array3 where
  "ex_rgb = \<lparr>dim0 = 1, dim1 = 1, dim2 = 3, cells = [[[1, 1, 1]]]\<rparr>"

definition ex_row :: array3 where
  "ex_row = \<lparr>dim0 = 1, dim1 = 2, dim2 = 4, cells = [[[1, 0, 0, 0], [0, 1, 0, 0]]]\<rparr>"

definition ex_odd :: cmat where
  "ex_odd = \<lparr>shape0 = 3, shape1 = 2, rows = [[0, 0], [0, 0], [0, 0]]\<rparr>"

text \<open>An observation mask with one missing pixel, and its tiled form.\<close>

definition ex_mask :: "bool array2" where
  "ex_mask = \<lparr>shape0 = 2, shape1 = 2, rows = [[False, True], [True, True]]\<rparr>"

definition ex_mask_c :: "bool array2" where
  "ex_mask_c = \<lparr>shape0 = 4, shape1 = 4,
     rows = [[False, True, False, True], [True, True, True, True],
             [False, True, False, True], [True, True, True, True]]\<rparr>"

definition Z42 :: cmat where
  "Z42 = mk2 4 2 (\<lambda>i j. 0)"

definition Z24 :: cmat where
  "Z24 = mk2 2 4 (\<lambda>i j. 0)"

definition bl_img :: array3 where
  "bl_img = mk3 2 2 4 (\<lambda>i j k. 0)"

definition Z44 :: cmat where
  "Z44 = mk2 4 4 (\<lambda>i j. 0)"

text \<open>
  Stand-ins for the library where its result is known in closed form: the pseudoinverse and
  the eigenvalues of a diagonal matrix. They refuse every other matrix. The generator draws
  0.0 every time.
\<close>

definition is_diag :: "cmat \<Rightarrow> bool" where
  "is_diag A = (shape0 A = shape1 A \<and>
     list_all (\<lambda>i. list_all (\<lambda>j. i = j \<or> at2 A i j = 0) [0..<shape1 A]) [0..<shape0 A])"

definition pinv_diag :: "cmat \<Rightarrow> error + cmat" where
  "pinv_diag A =
     (if is_diag A
      then Inr (mk2 (shape0 A) (shape0 A) (\<lambda>i j. if i = j \<and> at2 A i i \<noteq> 0 then 1 / at2 A i i else 0))
      else Inl LinAlgError)"

definition eigvalsh_diag :: "cmat \<Rightarrow> error + real list" where
  "eigvalsh_diag A =
     (if is_diag A then Inr (sort (map (\<lambda>i. Re (at2 A i i)) [0..<shape0 A])) else Inl LinAlgError)"

definition diag_linalg :: linalg where
  "diag_linalg = \<lparr>pinv = pinv_diag, eigvalsh = eigvalsh_diag\<rparr>"

definition zero_rng :: "nat rng" where
  "zero_rng = \<lparr>seed_state = nat, next_double = (\<lambda>g. (0, Suc g))\<rparr>"

text \<open>The parameters and states of the runs on \<open>ex_img\<close> and on the black image.\<close>

definition ex_P :: "int \<Rightarrow> lrqmc_params" where
  "ex_P mi = \<lparr>p_X0 = ex_C, p_mask_c = Some ex_mask_c, p_reg_coef = 1 / 1000, p_max_iter = mi,
     p_rel_tol = 1 / 1000, p_rot = 10, p_rank_mult = 9 / 10\<rparr>"

definition ex_s :: "real list \<Rightarrow> nat \<Rightarrow> bool \<Rightarrow> lrqmc_state" where
  "ex_s ns i f = \<lparr>s_X = ex_C, s_U = Z42, s_V = Z24, s_c_rank = 2, s_norms = ns, s_ix = i, s_flag = f\<rparr>"

definition bl_P :: "int \<Rightarrow> lrqmc_params" where
  "bl_P mi = \<lparr>p_X0 = Z44, p_mask_c = Some ex_mask_c, p_reg_coef = 1 / 1000, p_max_iter = mi,
     p_rel_tol = 1 / 1000, p_rot = 10, p_rank_mult = 9 / 10\<rparr>"

definition bl_s :: "real list \<Rightarrow> nat \<Rightarrow> bool \<Rightarrow> lrqmc_state" where
  "bl_s ns i f = \<lparr>s_X = Z44, s_U = Z42, s_V = Z24, s_c_rank = 2, s_norms = ns, s_ix = i, s_flag = f\<rparr>"

text \<open>
  A 3 x 3 image with one dominant entry and one missing pixel, a generator whose draws make
  \<open>U = 0\<close> and \<open>V\<close> half the leading 3 x 3 identity, and the matrices of the first pass of
  the run on it, in which the rank shrinks from 3 to 2.
\<close>

definition ex3_img :: array3 where
  "ex3_img = mk3 3 3 4 (\<lambda>i j k. if i = j \<and> k = 0 then (if i = 0 then 10 else 1) else 0)"

definition ex3_mask :: "bool array2" where
  "ex3_mask = \<lparr>shape0 = 3, shape1 = 3,
     rows = [[True, False, True], [True, True, True], [True, True, True]]\<rparr>"

definition ex3_mask_c :: "bool array2" where
  "ex3_mask_c = \<lparr>shape0 = 6, shape1 = 6,
     rows = [[True, False, True, True, False, True], [True, True, True, True, True, True],
             [True, True, True, True, True, True],
             [True, False, True, True, False, True], [True, True, True, True, True, True],
             [True, True, True, True, True, True]]\<rparr>"

definition X66 :: cmat where
  "X66 = mk2 6 6 (\<lambda>i j. if i = j then (if i = 0 \<or> i = 3 then 10 else 1) else 0)"

definition Z63 :: cmat where
  "Z63 = mk2 6 3 (\<lambda>i j. 0)"

definition V36 :: cmat where
  "V36 = mk2 3 6 (\<lambda>i j. if i = j then 1 / 2 else 0)"

definition U63 :: cmat where
  "U63 = mk2 6 3 (\<lambda>i j. if i = j then (if i = 0 then 10 else 1) else 0)"

definition W36 :: cmat where
  "W36 = mk2 3 6 (\<lambda>i j. if i = j then (if i = 0 then 400 / 401 else 4 / 5) else 0)"

definition U62 :: cmat where
  "U62 = mk2 6 2 (\<lambda>i j. if i = j then (if i = 0 then 10 else 1) else 0)"

definition W26 :: cmat where
  "W26 = mk2 2 6 (\<lambda>i j. if i = j then (if i = 0 then 400 / 401 else 4 / 5) else 0)"

definition D66 :: cmat where
  "D66 = mk2 6 6 (\<lambda>i j. if i = j then [10 / 401, 1 / 5, 1, 10, 1, 1] ! i else 0)"

definition script_rng :: "nat rng" where
  "script_rng = \<lparr>seed_state = nat,
     next_double = (\<lambda>g. (if g = 36 \<or> g = 43 \<or> g = 50 then 1 / 2 else 0, Suc g))\<rparr>"

definition ex3_P :: lrqmc_params where
  "ex3_P = \<lparr>p_X0 = X66, p_mask_c = Some ex3_mask_c, p_reg_coef = 1 / 4, p_max_iter = 5,
     p_rel_tol = 1, p_rot = 10, p_rank_mult = 9 / 10\<rparr>"

definition ex3_s0 :: lrqmc_state where
  "ex3_s0 = \<lparr>s_X = X66, s_U = Z63, s_V = V36, s_c_rank = 3,
     s_norms = [cnorm X66, 0, 0, 0, 0, 0], s_ix = 0, s_flag = True\<rparr>"

definition ex3_s1 :: lrqmc_state where
  "ex3_s1 = \<lparr>s_X = X66, s_U = U62, s_V = W26, s_c_rank = 2,
     s_norms = [cnorm X66, cnorm D66, 0, 0, 0, 0], s_ix = 0, s_flag = False\<rparr>"

definition bl3_img :: array3 where
  "bl3_img = mk3 3 3 4 (\<lambda>i j k. 0)"

definition Z66 :: cmat where
  "Z66 = mk2 6 6 (\<lambda>i j. 0)"

text \<open>The doubles nearest to 0.7 and to 0.58.\<close>

definition d07 :: real where "d07 = 3152519739159347 / 4503599627370496"
definition d058 :: real where "d058 = 5224175567749775 / 9007199254740992"

text \<open>A factor with an imaginary entry whose greatest eigenvalue quotient is the second.\<close>

definition U33 :: cmat where
  "U33 = mk2 3 3 (\<lambda>i j. if i = j then (if i = 0 then 2 else if i = 1 then 4 * \<i> else 1 / 2) else 0)"

section \<open>Facts about arrays\<close>

lemma mk2_sel [simp]:
  "shape0 (mk2 r c f) = r" "shape1 (mk2 r c f) = c" "length (rows (mk2 r c f)) = r"
  by (simp_all add: mk2_def)

lemma at2_mk2 [simp]: "i < r \<Longrightarrow> j < c \<Longrightarrow> at2 (mk2 r c f) i j = f i j"
  by (simp add: mk2_def at2_def)

lemma wf2_mk2 [simp]: "wf2 (mk2 r c f)"
  by (simp add: wf2_def mk2_def list_all_iff)

lemma mk2_cong: "(\<And>i j. i < r \<Longrightarrow> j < c \<Longrightarrow> f i j = g i j) \<Longrightarrow> mk2 r c f = mk2 r c g"
  by (simp add: mk2_def)

lemma mk3_cong:
  "(\<And>i j k. i < n \<Longrightarrow> j < m \<Longrightarrow> k < d \<Longrightarrow> f i j k = g i j k) \<Longrightarrow> mk3 n m d f = mk3 n m d g"
  by (simp add: mk3_def)

lemma map_array2_mk2: "map_array2 h (mk2 n m f) = mk2 n m (\<lambda>i j. h (f i j))"
  by (simp add: map_array2_def mk2_def)

lemma mk3_at3:
  assumes "wf3 Q"
  shows "mk3 (dim0 Q) (dim1 Q) (dim2 Q) (at3 Q) = Q"
proof -
  have len: "length (cells Q) = dim0 Q"
    and rws: "\<And>i. i < dim0 Q \<Longrightarrow> length (cells Q ! i) = dim1 Q"
    and cs: "\<And>i j. i < dim0 Q \<Longrightarrow> j < dim1 Q \<Longrightarrow> length (cells Q ! i ! j) = dim2 Q"
    using assms by (auto simp: wf3_def list_all_length)
  have "map (\<lambda>i. map (\<lambda>j. map (\<lambda>k. cells Q ! i ! j ! k) [0..<dim2 Q]) [0..<dim1 Q]) [0..<dim0 Q]
        = cells Q"
    by (rule nth_equalityI) (auto simp: len rws cs intro!: nth_equalityI)
  then show ?thesis
    by (cases Q) (simp add: mk3_def at3_def [abs_def])
qed

lemma quadrant_a:
  "map (take m) (take n (rows (vstack (hstack (mk2 n m f) (mk2 n m g)) B))) = rows (mk2 n m f)"
  by (rule nth_equalityI) (auto simp: vstack_def hstack_def mk2_def)

lemma quadrant_b:
  "map (drop m) (take n (rows (vstack (hstack (mk2 n m f) (mk2 n m g)) B))) = rows (mk2 n m g)"
  by (rule nth_equalityI) (auto simp: vstack_def hstack_def mk2_def)

lemma sl_concat: "sum_list (concat xss) = sum_list (map sum_list xss)"
  by (induction xss) simp_all

lemma rows_hstack_mk2:
  "rows (hstack (mk2 n m f) (mk2 n m g)) = map (\<lambda>i. map (f i) [0..<m] @ map (g i) [0..<m]) [0..<n]"
  by (simp add: hstack_def mk2_def zip_map_map zip_same_conv_map)

lemma sumsq_block:
  "sum_list (map (g :: 'a \<Rightarrow> real) (concat (rows (hstack (mk2 n m f1) (mk2 n m f2))))) =
   sum_list (map (\<lambda>i. sum_list (map (\<lambda>j. g (f1 i j)) [0..<m])) [0..<n]) +
   sum_list (map (\<lambda>i. sum_list (map (\<lambda>j. g (f2 i j)) [0..<m])) [0..<n])"
  by (simp add: rows_hstack_mk2 map_concat sl_concat comp_def sum_list_addf)

lemma sumsq_cells:
  "sum_list (map (g :: real \<Rightarrow> real) (concat (concat (cells (mk3 n m 4 f))))) =
   sum_list (map (\<lambda>i. sum_list (map (\<lambda>j. g (f i j 0)) [0..<m])) [0..<n]) +
   sum_list (map (\<lambda>i. sum_list (map (\<lambda>j. g (f i j 1)) [0..<m])) [0..<n]) +
   sum_list (map (\<lambda>i. sum_list (map (\<lambda>j. g (f i j 2)) [0..<m])) [0..<n]) +
   sum_list (map (\<lambda>i. sum_list (map (\<lambda>j. g (f i j 3)) [0..<m])) [0..<n])"
proof -
  have "[0..<4] = [0, 1, 2, 3::nat]" by (simp add: upt_rec)
  then show ?thesis
    by (simp add: mk3_def map_concat sl_concat comp_def sum_list_addf)
qed

lemma upt2: "[0..<2] = [0, 1]"
  by (simp add: upt_rec)

lemma wf3_ex_img: "wf3 ex_img"
  by (simp add: wf3_def ex_img_def)

lemma qm2cm_ex_img: "qm2cm ex_img None = Inr (ex_C, None)"
  by (simp add: qm2cm_def ex_img_def ex_C_def Let_def mk2_def vstack_def hstack_def map_array2_def
      at3_def upt2 complex_eq_iff)

lemma upt4: "[0..<4] = [0, 1, 2, 3]" by (simp add: upt_rec)

lemma at2_tile22:
  assumes "wf2 m" and "i < shape0 m" and "j < shape1 m"
  shows "at2 (tile22 m) i j = at2 m i j"
    and "at2 (tile22 m) i (shape1 m + j) = at2 m i j"
    and "at2 (tile22 m) (shape0 m + i) j = at2 m i j"
    and "at2 (tile22 m) (shape0 m + i) (shape1 m + j) = at2 m i j"
proof -
  have len: "length (rows m) = shape0 m" and row: "length (rows m ! i) = shape1 m"
    using assms by (auto simp: wf2_def list_all_length)
  show "at2 (tile22 m) i j = at2 m i j"
    using assms(2,3) len row
    by (simp add: tile22_def vstack_def hstack_def at2_def nth_append)
  show "at2 (tile22 m) i (shape1 m + j) = at2 m i j"
    using assms(2,3) len row
    by (simp add: tile22_def vstack_def hstack_def at2_def nth_append)
  show "at2 (tile22 m) (shape0 m + i) j = at2 m i j"
    using assms(2,3) len row
    by (simp add: tile22_def vstack_def hstack_def at2_def nth_append)
  show "at2 (tile22 m) (shape0 m + i) (shape1 m + j) = at2 m i j"
    using assms(2,3) len row
    by (simp add: tile22_def vstack_def hstack_def at2_def nth_append)
qed

lemma shape_tile22 [simp]: "shape0 (tile22 m) = 2 * shape0 m" "shape1 (tile22 m) = 2 * shape1 m"
  by (simp_all add: tile22_def vstack_def hstack_def)

lemma cm2qm_mk2:
  "cm2qm (mk2 (2 * n) (2 * m) f) =
   Inr (mk3 n m 4 (\<lambda>i j k. [Re (f i j), Im (f i j), Re (f i (m + j)), Im (f i (m + j))] ! k))"
proof -
  have a: "map (take m) (take n (rows (mk2 (2 * n) (2 * m) f))) = rows (mk2 n m f)"
    by (rule nth_equalityI) (auto simp: mk2_def intro!: nth_equalityI)
  have b: "map (drop m) (take n (rows (mk2 (2 * n) (2 * m) f))) = rows (mk2 n m (\<lambda>i j. f i (m + j)))"
    by (rule nth_equalityI) (auto simp: mk2_def intro!: nth_equalityI)
  have sh: "shape0 (mk2 (2 * n) (2 * m) f) = 2 * n" "shape1 (mk2 (2 * n) (2 * m) f) = 2 * m"
    by simp_all
  show ?thesis
    unfolding cm2qm_def Let_def sh
    apply (simp add: a b stack4_def del: mk2_sel)
    apply (rule mk3_cong)
    subgoal for i j k
      by (cases "k = 0"; cases "k = 1"; cases "k = 2"; cases "k = 3")
         (simp_all add: at2_def map_array2_def mk2_def)
    done
qed

text \<open>The embedding, entry by entry.\<close>

lemma qm2cm_Inr:
  assumes "qm2cm Q msk = Inr (X, mc)"
  shows "shape0 X = 2 * dim0 Q" and "shape1 X = 2 * dim1 Q"
    and "\<And>i j. i < dim0 Q \<Longrightarrow> j < dim1 Q \<Longrightarrow> at2 X i j = Complex (at3 Q i j 0) (at3 Q i j 1)"
    and "\<And>i j. i < dim0 Q \<Longrightarrow> j < dim1 Q \<Longrightarrow>
           at2 X i (dim1 Q + j) = Complex (at3 Q i j 2) (at3 Q i j 3)"
proof -
  let ?n = "dim0 Q" and ?m = "dim1 Q"
  let ?fa = "\<lambda>i j. Complex (at3 Q i j 0) (at3 Q i j 1)"
  let ?fb = "\<lambda>i j. Complex (at3 Q i j 2) (at3 Q i j 3)"
  have X: "X = vstack (hstack (mk2 ?n ?m ?fa) (mk2 ?n ?m ?fb))
                      (hstack (mk2 ?n ?m (\<lambda>i j. - cnj (?fb i j))) (mk2 ?n ?m (\<lambda>i j. cnj (?fa i j))))"
    using assms by (simp add: qm2cm_def Let_def map_array2_mk2 split: if_splits)
  show "shape0 X = 2 * dim0 Q" "shape1 X = 2 * dim1 Q"
    by (simp_all add: X vstack_def hstack_def)
  show "at2 X i j = ?fa i j" if "i < ?n" "j < ?m" for i j
    using that by (simp add: X vstack_def rows_hstack_mk2 at2_def nth_append)
  show "at2 X i (?m + j) = ?fb i j" if "i < ?n" "j < ?m" for i j
    using that by (simp add: X vstack_def rows_hstack_mk2 at2_def nth_append)
qed

lemma quaternion_cell:
  assumes "wf3 Q" and "dim2 Q = 4" and "i < dim0 Q" and "j < dim1 Q"
  shows "[at3 Q i j 0, at3 Q i j 1, at3 Q i j 2, at3 Q i j 3] = cells Q ! i ! j"
proof -
  have "length (cells Q ! i ! j) = 4"
    using assms by (auto simp: wf3_def list_all_length)
  then show ?thesis
    by (auto simp: at3_def numeral_eq_Suc length_Suc_conv)
qed


lemma wf2_ex_mask: "wf2 ex_mask"
  by (simp add: wf2_def ex_mask_def)

lemma upt3: "[0..<3] = [0, 1, 2]" by (simp add: upt_rec)
lemma upt6: "[0..<6] = [0, 1, 2, 3, 4, 5]" by (simp add: upt_rec)

lemmas mk_eval = mk2_def mk3_def upt2 upt3 upt4 upt6

section \<open>Facts about the loop\<close>

lemma lrqmc_step_Inr:
  assumes "lrqmc_step L P s = Inr s1"
  shows "\<exists>U1 V1 k mu n.
    update_U L (s_X s) (s_V s) (s_c_rank s) (p_reg_coef P) = Inr U1 \<and>
    update_V L (s_X s) U1 (s_c_rank s) (p_reg_coef P) = Inr V1 \<and>
    reimpose (p_X0 P) (p_mask_c P) U1 V1 = Inr (s_X s1) \<and>
    rank_check L U1 (s_c_rank s) = Inr (k, mu) \<and>
    s_c_rank s1 = (if fl_greater mu (p_rot P) then shrunk_rank k (s_c_rank s) (p_rank_mult P) else s_c_rank s) \<and>
    s_U s1 = (if fl_greater mu (p_rot P) then slice_cols U1 (s_c_rank s1) else U1) \<and>
    s_V s1 = (if fl_greater mu (p_rot P) then slice_rows V1 (s_c_rank s1) else V1) \<and>
    residual (s_X s1) (s_U s1) (s_V s1) = Inr n \<and>
    s_ix s + 1 < length (s_norms s) \<and>
    s_norms s1 = (s_norms s)[s_ix s + 1 := n] \<and>
    s_flag s1 = (\<not> converged P s n \<and> int (s_ix s) < p_max_iter P) \<and>
    s_ix s1 = (if s_flag s1 then s_ix s + 1 else s_ix s)"
proof -
  from assms obtain U1 V1 X1 k mu where
    uU: "update_U L (s_X s) (s_V s) (s_c_rank s) (p_reg_coef P) = Inr U1" and
    uV: "update_V L (s_X s) U1 (s_c_rank s) (p_reg_coef P) = Inr V1" and
    re: "reimpose (p_X0 P) (p_mask_c P) U1 V1 = Inr X1" and
    rc: "rank_check L U1 (s_c_rank s) = Inr (k, mu)" and
    rest: "(let fired = fl_greater mu (p_rot P);
           c2 = (if fired then shrunk_rank k (s_c_rank s) (p_rank_mult P) else s_c_rank s);
           U2 = (if fired then slice_cols U1 c2 else U1);
           V2 = (if fired then slice_rows V1 c2 else V1)
       in bindE (residual X1 U2 V2) (\<lambda>n.
            if length (s_norms s) \<le> s_ix s + 1 then Inl IndexError
            else
              let norms1 = (s_norms s)[s_ix s + 1 := n];
                  s1 = \<lparr>s_X = X1, s_U = U2, s_V = V2, s_c_rank = c2, s_norms = norms1,
                        s_ix = s_ix s, s_flag = True\<rparr>
              in if fl_less (fdiv \<bar>norms1 ! (s_ix s + 1) - norms1 ! s_ix s\<bar> (norms1 ! s_ix s))
                            (p_rel_tol P)
                 then Inr (s1\<lparr>s_flag := False\<rparr>)
                 else if p_max_iter P \<le> int (s_ix s) then Inr (s1\<lparr>s_flag := False\<rparr>)
                 else Inr (s1\<lparr>s_ix := s_ix s + 1\<rparr>))) = Inr s1"
    unfolding lrqmc_step_def bindE_Inr_iff by (auto split: prod.splits)
  define c2 where "c2 = (if fl_greater mu (p_rot P) then shrunk_rank k (s_c_rank s) (p_rank_mult P) else s_c_rank s)"
  define U2 where "U2 = (if fl_greater mu (p_rot P) then slice_cols U1 c2 else U1)"
  define V2 where "V2 = (if fl_greater mu (p_rot P) then slice_rows V1 c2 else V1)"
  from rest obtain n where
    rs: "residual X1 U2 V2 = Inr n" and
    len: "s_ix s + 1 < length (s_norms s)" and
    s1: "s1 = \<lparr>s_X = X1, s_U = U2, s_V = V2, s_c_rank = c2, s_norms = (s_norms s)[s_ix s + 1 := n],
               s_ix = (if \<not> converged P s n \<and> int (s_ix s) < p_max_iter P then s_ix s + 1 else s_ix s),
               s_flag = (\<not> converged P s n \<and> int (s_ix s) < p_max_iter P)\<rparr>"
    unfolding Let_def bindE_Inr_iff c2_def [symmetric] U2_def [symmetric] V2_def [symmetric] converged_def
    by (auto split: if_splits)
  show ?thesis
    apply (rule exI [of _ U1], rule exI [of _ V1], rule exI [of _ k], rule exI [of _ mu], rule exI [of _ n])
    using uU uV re rc rs len by (simp add: s1 c2_def U2_def V2_def)
qed

lemma lrqmc_loop_unfold:
  assumes "lrqmc_loop L P s = Inr sf" and "s_flag s"
  obtains s1 where "lrqmc_step L P s = Inr s1" and "lrqmc_loop L P s1 = Inr sf"
  using assms by (subst (asm) lrqmc_loop.simps) (auto split: sum.splits)

lemma lrqmc_loop_stopped: "\<not> s_flag s \<Longrightarrow> lrqmc_loop L P s = Inr s"
  by (subst lrqmc_loop.simps) simp

lemma lrqmc_loop_trace:
  assumes "lrqmc_loop L P s = Inr sf" and "s_flag s"
  shows "length (s_norms sf) = length (s_norms s) \<and>
         s_ix s \<le> s_ix sf \<and> s_ix sf + 1 < length (s_norms s) \<and> \<not> s_flag sf \<and>
         lrqmc_steps L P (s_ix sf + 1 - s_ix s) s = Inr sf \<and>
         (\<forall>i. i \<le> s_ix s \<longrightarrow> s_norms sf ! i = s_norms s ! i) \<and>
         (\<forall>i. s_ix s < i \<and> i \<le> s_ix sf + 1 \<longrightarrow>
            (\<exists>si. lrqmc_steps L P (i - s_ix s) s = Inr si \<and>
                  residual (s_X si) (s_U si) (s_V si) = Inr (s_norms sf ! i) \<and>
                  s_norms si ! i = s_norms sf ! i)) \<and>
         (\<forall>i. s_ix sf + 1 < i \<longrightarrow> s_norms sf ! i = s_norms s ! i)"
  using assms
proof (induction L P s rule: lrqmc_loop.induct)
  case (1 L P s)
  from "1.prems" obtain s1 where step: "lrqmc_step L P s = Inr s1" and loop1: "lrqmc_loop L P s1 = Inr sf"
    by (rule lrqmc_loop_unfold)
  from lrqmc_step_Inr [OF step] obtain n where
    rs: "residual (s_X s1) (s_U s1) (s_V s1) = Inr n" and
    len: "s_ix s + 1 < length (s_norms s)" and
    ns: "s_norms s1 = (s_norms s)[s_ix s + 1 := n]" and
    ix: "s_ix s1 = (if s_flag s1 then s_ix s + 1 else s_ix s)"
    by blast
  have one: "lrqmc_steps L P (Suc 0) s = Inr s1"
    by (simp add: step bindE_def)
  show ?case
  proof (cases "s_flag s1")
    case False
    then have sf: "sf = s1" using loop1 by (simp add: lrqmc_loop_stopped)
    have ixf: "s_ix s1 = s_ix s" using ix False by simp
    show ?thesis
      unfolding sf ixf using len rs one False
      by (auto simp: ns le_Suc_eq)
  next
    case True
    then have ix1: "s_ix s1 = s_ix s + 1" using ix by simp
    note IH = "1.IH" [OF "1.prems"(2) step loop1 True]
    have len1: "length (s_norms s1) = length (s_norms s)" by (simp add: ns)
    from IH have a: "length (s_norms sf) = length (s_norms s)"
      and b: "s_ix s + 1 \<le> s_ix sf" and c: "s_ix sf + 1 < length (s_norms s)" and d: "\<not> s_flag sf"
      and e: "lrqmc_steps L P (s_ix sf + 1 - (s_ix s + 1)) s1 = Inr sf"
      and f: "\<And>i. i \<le> s_ix s + 1 \<Longrightarrow> s_norms sf ! i = s_norms s1 ! i"
      and g: "\<And>i. s_ix s + 1 < i \<Longrightarrow> i \<le> s_ix sf + 1 \<Longrightarrow>
            \<exists>si. lrqmc_steps L P (i - (s_ix s + 1)) s1 = Inr si \<and>
                  residual (s_X si) (s_U si) (s_V si) = Inr (s_norms sf ! i) \<and>
                  s_norms si ! i = s_norms sf ! i"
      and h: "\<And>i. s_ix sf + 1 < i \<Longrightarrow> s_norms sf ! i = s_norms s1 ! i"
      by (simp_all add: ix1 len1)
    have shift: "lrqmc_steps L P (Suc k) s = lrqmc_steps L P k s1" for k
      by (simp add: step bindE_def)
    have e': "lrqmc_steps L P (s_ix sf + 1 - s_ix s) s = Inr sf"
    proof -
      have "s_ix sf + 1 - s_ix s = Suc (s_ix sf + 1 - (s_ix s + 1))" using b by simp
      then show ?thesis using e shift by simp
    qed
    have f': "s_norms sf ! i = s_norms s ! i" if "i \<le> s_ix s" for i
      using f [of i] that by (simp add: ns)
    have g': "\<exists>si. lrqmc_steps L P (i - s_ix s) s = Inr si \<and>
                  residual (s_X si) (s_U si) (s_V si) = Inr (s_norms sf ! i) \<and>
                  s_norms si ! i = s_norms sf ! i"
      if "s_ix s < i" "i \<le> s_ix sf + 1" for i
    proof (cases "i = s_ix s + 1")
      case True
      then have "s_norms sf ! i = n" "s_norms s1 ! i = n" using f [of i] len by (simp_all add: ns)
      then show ?thesis using True one rs by auto
    next
      case False
      then have lt: "s_ix s + 1 < i" using that by simp
      then have "i - s_ix s = Suc (i - (s_ix s + 1))" by simp
      then show ?thesis using g [OF lt that(2)] shift by simp
    qed
    have h': "s_norms sf ! i = s_norms s ! i" if "s_ix sf + 1 < i" for i
      using h [OF that] that b by (simp add: ns)
    show ?thesis
      using a b c d e' f' g' h' by simp
  qed
qed

lemma lrqmc_init_Inr:
  assumes "lrqmc_init R g entropy qmat msk init_rank reg_coef max_iter rel_tol rot rank_mult
             random_state = Inr (P, s0)"
  shows "\<exists>X U V g0 g1 n0.
    qm2cm qmat (Some msk) = Inr (X, Some (tile22 msk)) \<and>
    np_random_seed R random_state entropy g = Inr g0 \<and>
    init_factors R (dim0 qmat) (dim1 qmat) (initial_rank init_rank (dim0 qmat) (dim1 qmat)) g0
      = Inr (U, V, g1) \<and>
    0 \<le> max_iter \<and> residual X U V = Inr n0 \<and>
    P = \<lparr>p_X0 = X, p_mask_c = Some (tile22 msk), p_reg_coef = reg_coef, p_max_iter = max_iter,
          p_rel_tol = rel_tol, p_rot = rot, p_rank_mult = rank_mult\<rparr> \<and>
    s0 = \<lparr>s_X = X, s_U = U, s_V = V,
           s_c_rank = initial_rank init_rank (dim0 qmat) (dim1 qmat),
           s_norms = (replicate (nat (max_iter + 1)) 0)[0 := n0], s_ix = 0, s_flag = True\<rparr>"
proof -
  from assms obtain X mc g0 U V g1 n0 where
    q: "qm2cm qmat (Some msk) = Inr (X, mc)" and
    sd: "np_random_seed R random_state entropy g = Inr g0" and
    fa: "init_factors R (dim0 qmat) (dim1 qmat) (initial_rank init_rank (dim0 qmat) (dim1 qmat)) g0
      = Inr (U, V, g1)" and
    mi: "\<not> max_iter + 1 < 0" and rs: "residual X U V = Inr n0" and
    nz: "nat (max_iter + 1) \<noteq> 0" and
    P: "P = \<lparr>p_X0 = X, p_mask_c = mc, p_reg_coef = reg_coef, p_max_iter = max_iter,
          p_rel_tol = rel_tol, p_rot = rot, p_rank_mult = rank_mult\<rparr>" and
    s0: "s0 = \<lparr>s_X = X, s_U = U, s_V = V,
           s_c_rank = initial_rank init_rank (dim0 qmat) (dim1 qmat),
           s_norms = (replicate (nat (max_iter + 1)) 0)[0 := n0], s_ix = 0, s_flag = True\<rparr>"
    by (auto simp: lrqmc_init_def bindE_Inr_iff Let_def split: prod.splits if_splits)
  have mc: "mc = Some (tile22 msk)"
    using q by (auto simp: qm2cm_def Let_def split: if_splits)
  show ?thesis
    using q sd fa mi rs nz P s0 unfolding mc by auto
qed

lemma reimpose_Inr:
  assumes "reimpose X0 mask_c U V = Inr X1"
  shows "\<exists>mc UV. mask_c = Some mc \<and> dot U V = Inr UV \<and>
           shape0 mc = shape0 X0 \<and> shape1 mc = shape1 X0 \<and>
           X1 = mk2 (shape0 X0) (shape1 X0)
                  (\<lambda>i j. if at2 mc i j then at2 X0 i j else at2 X0 i j + at2 UV i j)"
  using assms
  by (auto simp: reimpose_def bindE_Inr_iff split: option.splits if_splits)

lemma pinned_after_step:
  assumes wf: "wf3 qmat" "wf2 msk"
    and init: "lrqmc_init R g entropy qmat msk init_rank reg_coef max_iter rel_tol rot rank_mult
                 random_state = Inr (P, s0)"
    and step: "lrqmc_step L P s = Inr s1"
    and ij: "i < dim0 qmat" "j < dim1 qmat" and obs: "at2 msk i j"
  shows "at2 (s_X s1) i j = at2 (p_X0 P) i j"
    and "at2 (s_X s1) i (dim1 qmat + j) = at2 (p_X0 P) i (dim1 qmat + j)"
    and "at2 (s_X s1) (dim0 qmat + i) j = at2 (p_X0 P) (dim0 qmat + i) j"
    and "at2 (s_X s1) (dim0 qmat + i) (dim1 qmat + j) = at2 (p_X0 P) (dim0 qmat + i) (dim1 qmat + j)"
    and "\<exists>Q1. cm2qm (s_X s1) = Inr Q1 \<and> cells Q1 ! i ! j = cells qmat ! i ! j"
proof -
  from lrqmc_init_Inr [OF init] obtain X where
    q: "qm2cm qmat (Some msk) = Inr (X, Some (tile22 msk))" and
    PX: "p_X0 P = X" and Pm: "p_mask_c P = Some (tile22 msk)"
    by auto
  note sh = qm2cm_Inr(1,2) [OF q]
  have d4: "dim2 qmat = 4" using q by (auto simp: qm2cm_def split: if_splits)
  from lrqmc_step_Inr [OF step] obtain U1 V1 where
    "reimpose (p_X0 P) (p_mask_c P) U1 V1 = Inr (s_X s1)" by blast
  from reimpose_Inr [OF this] obtain UV where
    shm: "shape0 (tile22 msk) = shape0 X" "shape1 (tile22 msk) = shape1 X" and
    X1: "s_X s1 = mk2 (shape0 X) (shape1 X)
           (\<lambda>i j. if at2 (tile22 msk) i j then at2 X i j else at2 X i j + at2 UV i j)"
    unfolding PX Pm by auto
  have N: "shape0 msk = dim0 qmat" and M: "shape1 msk = dim1 qmat"
    using shm sh by simp_all
  note t = at2_tile22 [OF wf(2), unfolded N M, OF ij]
  show a: "at2 (s_X s1) i j = at2 (p_X0 P) i j"
    using ij obs t by (simp add: X1 PX sh)
  show b: "at2 (s_X s1) i (dim1 qmat + j) = at2 (p_X0 P) i (dim1 qmat + j)"
    using ij obs t by (simp add: X1 PX sh)
  show "at2 (s_X s1) (dim0 qmat + i) j = at2 (p_X0 P) (dim0 qmat + i) j"
    using ij obs t by (simp add: X1 PX sh)
  show "at2 (s_X s1) (dim0 qmat + i) (dim1 qmat + j) = at2 (p_X0 P) (dim0 qmat + i) (dim1 qmat + j)"
    using ij obs t by (simp add: X1 PX sh)
  define F where "F = (\<lambda>i j. if at2 (tile22 msk) i j then at2 X i j else at2 X i j + at2 UV i j)"
  have fa: "F i j = Complex (at3 qmat i j 0) (at3 qmat i j 1)"
    using ij obs t qm2cm_Inr(3) [OF q ij] by (simp add: F_def)
  have fb: "F i (dim1 qmat + j) = Complex (at3 qmat i j 2) (at3 qmat i j 3)"
    using ij obs t qm2cm_Inr(4) [OF q ij] by (simp add: F_def)
  have "cm2qm (s_X s1) = Inr (mk3 (dim0 qmat) (dim1 qmat) 4
          (\<lambda>i j k. [Re (F i j), Im (F i j), Re (F i (dim1 qmat + j)), Im (F i (dim1 qmat + j))] ! k))"
    unfolding X1 sh F_def by (rule cm2qm_mk2)
  moreover have "cells (mk3 (dim0 qmat) (dim1 qmat) 4
          (\<lambda>i j k. [Re (F i j), Im (F i j), Re (F i (dim1 qmat + j)), Im (F i (dim1 qmat + j))] ! k)) ! i ! j
        = cells qmat ! i ! j"
  proof -
    have u4: "[0..<4] = [0, 1, 2, 3::nat]" by (simp add: upt_rec)
    show ?thesis
      using ij quaternion_cell [OF wf(1) d4 ij]
      by (simp add: mk3_def fa fb u4 del: upt_Suc)
  qed
  ultimately show "\<exists>Q1. cm2qm (s_X s1) = Inr Q1 \<and> cells Q1 ! i ! j = cells qmat ! i ! j"
    by simp
qed

lemma lrqmc_steps_last:
  "lrqmc_steps L P (Suc k) s = Inr sf \<Longrightarrow>
   \<exists>s'. lrqmc_steps L P k s = Inr s' \<and> lrqmc_step L P s' = Inr sf"
proof (induction k arbitrary: s)
  case 0
  then show ?case by (auto simp: bindE_Inr_iff)
next
  case (Suc k)
  from Suc.prems obtain s1 where
    st: "lrqmc_step L P s = Inr s1" and re: "lrqmc_steps L P (Suc k) s1 = Inr sf"
    by (auto simp: bindE_Inr_iff)
  from Suc.IH [OF re] obtain s' where
    "lrqmc_steps L P k s1 = Inr s'" "lrqmc_step L P s' = Inr sf" by blast
  then show ?case using st by (auto simp: bindE_Inr_iff)
qed

lemma lrqmc_Inr:
  assumes "lrqmc L R g entropy qmat msk init_rank reg_coef max_iter rel_tol rot rank_mult
             return_norms random_state = Inr (Q1, U, V, ns)"
  shows "\<exists>P s0 sf. lrqmc_init R g entropy qmat msk init_rank reg_coef max_iter rel_tol rot rank_mult
             random_state = Inr (P, s0) \<and>
           lrqmc_loop L P s0 = Inr sf \<and> cm2qm (s_X sf) = Inr Q1 \<and> U = s_U sf \<and> V = s_V sf \<and>
           ns = (if return_norms then Some (s_norms sf) else None)"
  using assms by (auto simp: lrqmc_def bindE_Inr_iff)

lemma lrqmc_loop_last_step:
  assumes "lrqmc_loop L P s = Inr sf" and "s_flag s"
  shows "\<exists>s'. lrqmc_steps L P (s_ix sf - s_ix s) s = Inr s' \<and> lrqmc_step L P s' = Inr sf"
proof -
  from lrqmc_loop_trace [OF assms] have
    le: "s_ix s \<le> s_ix sf" and st: "lrqmc_steps L P (s_ix sf + 1 - s_ix s) s = Inr sf"
    by simp_all
  have "s_ix sf + 1 - s_ix s = Suc (s_ix sf - s_ix s)" using le by simp
  with st lrqmc_steps_last show ?thesis by simp
qed

lemma lrqmc_max_iter_0:
  "lrqmc L R g entropy qmat msk init_rank reg_coef 0 rel_tol rot rank_mult return_norms random_state
   \<noteq> Inr res"
proof
  assume a: "lrqmc L R g entropy qmat msk init_rank reg_coef 0 rel_tol rot rank_mult return_norms
    random_state = Inr res"
  obtain Q1 U V ns where "res = (Q1, U, V, ns)" by (cases res) auto
  with a have "lrqmc L R g entropy qmat msk init_rank reg_coef 0 rel_tol rot rank_mult return_norms
    random_state = Inr (Q1, U, V, ns)" by simp
  from lrqmc_Inr [OF this] obtain P s0 sf where
    init: "lrqmc_init R g entropy qmat msk init_rank reg_coef 0 rel_tol rot rank_mult random_state
      = Inr (P, s0)" and loop: "lrqmc_loop L P s0 = Inr sf"
    by blast
  from lrqmc_init_Inr [OF init] have fl: "s_flag s0" and len: "length (s_norms s0) = 1"
    by auto
  from lrqmc_loop_trace [OF loop fl] len show False by simp
qed

lemma dot_Inr:
  assumes "dot A B = Inr C"
  shows "shape1 A = shape0 B" and "shape0 C = shape0 A" and "shape1 C = shape1 B"
  using assms by (auto simp: dot_def split: if_splits)

lemma reg_eye_Inr:
  assumes "reg_eye reg c = Inr E"
  shows "0 \<le> c" and "shape0 E = nat c" and "shape1 E = nat c"
  using assms by (auto simp: reg_eye_def split: if_splits)

lemma broadcast2_same:
  assumes "broadcast2 f A B = Inr C" and "shape0 A = shape0 B" and "shape1 A = shape1 B"
  shows "shape0 C = shape0 A" and "shape1 C = shape1 A"
  using assms by (auto simp: broadcast2_def bc_dim_def split: option.splits if_splits)

lemma update_U_shape:
  assumes ok: "lib_ok L" and u: "update_U L X V c reg = Inr U1" and c: "c = int (shape0 V)"
  shows "shape0 U1 = shape0 X" and "shape1 U1 = shape0 V"
proof -
  from u obtain XVh VVh E S P where
    a: "dot X (conj_T V) = Inr XVh" and b: "dot V (conj_T V) = Inr VVh" and
    e: "reg_eye reg c = Inr E" and s: "broadcast2 (\<lambda>a b. a + b) VVh E = Inr S" and
    p: "pinv L S = Inr P" and d: "dot XVh P = Inr U1"
    unfolding update_U_def bindE_Inr_iff by blast
  have "shape0 VVh = shape0 V" "shape1 VVh = shape0 V"
    using dot_Inr(2,3) [OF b] by (simp_all add: conj_T_def)
  moreover have "shape0 E = shape0 V" "shape1 E = shape0 V"
    using reg_eye_Inr(2,3) [OF e] c by simp_all
  ultimately have "shape0 S = shape0 V" "shape1 S = shape0 V"
    using broadcast2_same [OF s] by simp_all
  then have P: "shape1 P = shape0 V"
    using ok p by (auto simp: lib_ok_def)
  show "shape0 U1 = shape0 X" using dot_Inr(2) [OF d] dot_Inr(2) [OF a] by simp
  show "shape1 U1 = shape0 V" using dot_Inr(3) [OF d] P by simp
qed

lemma update_V_shape:
  assumes ok: "lib_ok L" and u: "update_V L X U c reg = Inr V1" and c: "c = int (shape1 U)"
  shows "shape0 V1 = shape1 U" and "shape1 V1 = shape1 X"
proof -
  from u obtain UhU E S P UhX where
    b: "dot (conj_T U) U = Inr UhU" and
    e: "reg_eye reg c = Inr E" and s: "broadcast2 (\<lambda>a b. a + b) UhU E = Inr S" and
    p: "pinv L S = Inr P" and a: "dot (conj_T U) X = Inr UhX" and d: "dot P UhX = Inr V1"
    unfolding update_V_def bindE_Inr_iff by blast
  have "shape0 UhU = shape1 U" "shape1 UhU = shape1 U"
    using dot_Inr(2,3) [OF b] by (simp_all add: conj_T_def)
  moreover have "shape0 E = shape1 U" "shape1 E = shape1 U"
    using reg_eye_Inr(2,3) [OF e] c by simp_all
  ultimately have "shape0 S = shape1 U" "shape1 S = shape1 U"
    using broadcast2_same [OF s] by simp_all
  then have P: "shape0 P = shape1 U"
    using ok p by (auto simp: lib_ok_def)
  show "shape0 V1 = shape1 U" using dot_Inr(2) [OF d] P by simp
  show "shape1 V1 = shape1 X" using dot_Inr(3) [OF d] dot_Inr(3) [OF a] by simp
qed

lemma first_index_less: "list_ex p xs \<Longrightarrow> first_index p xs < length xs"
  by (induction xs) auto

lemma fl_le_refl: "x \<noteq> NaN \<Longrightarrow> fl_le x x"
  by (cases x) auto

lemma fl_le_total: "x \<noteq> NaN \<Longrightarrow> y \<noteq> NaN \<Longrightarrow> fl_le x y \<or> fl_le y x"
  by (cases x; cases y) auto

lemma fl_le_trans: "fl_le x y \<Longrightarrow> fl_le y z \<Longrightarrow> fl_le x z"
  by (cases x; cases y; cases z) auto

lemma greatest_exists:
  assumes "qs \<noteq> []" and "NaN \<notin> set qs"
  shows "\<exists>q \<in> set qs. \<forall>y \<in> set qs. fl_le y q"
  using assms
proof (induction qs)
  case Nil
  then show ?case by simp
next
  case (Cons x xs)
  show ?case
  proof (cases "xs = []")
    case True
    then show ?thesis using Cons.prems fl_le_refl [of x] by auto
  next
    case False
    with Cons obtain m where m: "m \<in> set xs" "\<forall>y \<in> set xs. fl_le y m" by auto
    have nn: "x \<noteq> NaN" "m \<noteq> NaN" using Cons.prems m(1) by auto
    from fl_le_total [OF nn] show ?thesis
    proof
      assume "fl_le x m"
      then show ?thesis using m by auto
    next
      assume mx: "fl_le m x"
      then have "\<forall>y \<in> set xs. fl_le y x" using m(2) fl_le_trans by blast
      then show ?thesis using fl_le_refl [OF nn(1)] by auto
    qed
  qed
qed

lemma argmax_less: "qs \<noteq> [] \<Longrightarrow> argmax qs < length qs"
proof (cases "list_ex (\<lambda>q. q = NaN) qs")
  case True
  then show ?thesis by (simp add: argmax_def first_index_less)
next
  case False
  assume "qs \<noteq> []"
  moreover from False have "NaN \<notin> set qs" by (auto simp: list_ex_iff)
  ultimately have "list_ex (\<lambda>q. list_all (\<lambda>y. fl_le y q) qs) qs"
    using greatest_exists [of qs] by (auto simp: list_ex_iff list_all_iff)
  then show ?thesis using False by (simp add: argmax_def first_index_less)
qed

lemma rank_check_bound:
  assumes ok: "lib_ok L" and rc: "rank_check L U c = Inr (k, mu)"
  shows "k + 2 \<le> shape1 U"
proof -
  from rc obtain UhU es where
    b: "dot (conj_T U) U = Inr UhU" and e: "eigvalsh L UhU = Inr es" and
    q: "map (\<lambda>(a, b). fdiv a b) (zip (butlast (rev (sort es))) (tl (rev (sort es)))) \<noteq> []" and
    k: "k = argmax (map (\<lambda>(a, b). fdiv a b) (zip (butlast (rev (sort es))) (tl (rev (sort es)))))"
    unfolding rank_check_def bindE_Inr_iff Let_def by (auto split: if_splits)
  have "length es = shape1 U"
    using ok e dot_Inr(2) [OF b] by (auto simp: lib_ok_def conj_T_def)
  moreover have "k < length (map (\<lambda>(a, b). fdiv a b) (zip (butlast (rev (sort es))) (tl (rev (sort es)))))"
    unfolding k by (rule argmax_less [OF q])
  ultimately show ?thesis by simp
qed

text \<open>Rounding to a double.\<close>

lemma round_even_le: "y \<le> of_int m \<Longrightarrow> round_even y \<le> m"
proof -
  assume a: "y \<le> of_int m"
  then have f: "\<lfloor>y\<rfloor> \<le> m" by (simp add: floor_le_iff)
  show ?thesis
  proof (cases "y - of_int \<lfloor>y\<rfloor> < 1 / 2")
    case True
    then show ?thesis using f by (simp add: round_even_def)
  next
    case False
    then have "of_int \<lfloor>y\<rfloor> < y" by linarith
    then have "of_int \<lfloor>y\<rfloor> < (of_int m :: real)" using a by linarith
    then have "\<lfloor>y\<rfloor> < m" by simp
    then show ?thesis by (simp add: round_even_def)
  qed
qed

lemma round_even_nonneg: "0 \<le> y \<Longrightarrow> 0 \<le> round_even y"
  by (simp add: round_even_def)

lemma round_even_near: "of_int m - 1 / 2 < y \<Longrightarrow> y < of_int m + 1 / 2 \<Longrightarrow> round_even y = m"
proof -
  assume a: "of_int m - 1 / 2 < y" "y < of_int m + 1 / 2"
  show ?thesis
  proof (cases "of_int m \<le> y")
    case True
    then have "\<lfloor>y\<rfloor> = m" using a(2) by (simp add: floor_eq_iff)
    then show ?thesis using a(2) by (simp add: round_even_def)
  next
    case False
    then have f: "\<lfloor>y\<rfloor> = m - 1" using a(1) by (simp add: floor_eq_iff)
    have "1 / 2 < y - of_int (m - 1)" using a(1) by simp
    then show ?thesis unfolding round_even_def f by simp
  qed
qed

lemma round_even_tie: "y = of_int m + 1 / 2 \<Longrightarrow> round_even y = (if even m then m else m + 1)"
proof -
  assume a: "y = of_int m + 1 / 2"
  then have "\<lfloor>y\<rfloor> = m" by (simp add: floor_eq_iff)
  then show ?thesis unfolding round_even_def using a by simp
qed

lemma round_double_at:
  assumes "2 powr of_int e \<le> \<bar>x\<bar>" and "\<bar>x\<bar> < 2 powr (of_int e + 1)"
  shows "round_double x = of_int (round_even (x / 2 powr (of_int e - 52))) * 2 powr (of_int e - 52)"
proof -
  have "(0::real) < 2 powr of_int e" by simp
  with assms(1) have pos: "0 < \<bar>x\<bar>" by linarith
  have "\<lfloor>log 2 \<bar>x\<bar>\<rfloor> = e"
    using assms pos floor_log_eq_powr_iff [of "\<bar>x\<bar>" 2 e] by simp
  moreover have "x \<noteq> 0" using pos by simp
  ultimately show ?thesis unfolding round_double_def by simp
qed

lemma round_double_nonneg: "0 \<le> x \<Longrightarrow> 0 \<le> round_double x"
  unfolding round_double_def by (simp add: round_even_nonneg)

lemma round_double_le_int:
  assumes "0 \<le> x" and "x \<le> of_int n" and "n < 2 ^ 53"
  shows "round_double x \<le> of_int n"
proof (cases "x = 0")
  case True
  then have "round_double x = 0" by (simp add: round_double_def)
  moreover have "(0::real) \<le> of_int n" using assms(1,2) by linarith
  ultimately show ?thesis by simp
next
  case False
  then have pos: "0 < x" using assms(1) by simp
  define e where "e = \<lfloor>log 2 \<bar>x\<bar>\<rfloor>"
  have b: "2 powr of_int e \<le> x"
    using floor_log_eq_powr_iff [of "\<bar>x\<bar>" 2 e] pos by (simp add: e_def)
  have n53: "(of_int n :: real) < 2 ^ 53"
  proof -
    have "(of_int n :: real) < of_int (2 ^ 53)" using assms(3) by (simp only: of_int_less_iff)
    then show ?thesis by simp
  qed
  have "2 powr of_int e < (2::real) ^ 53" using b assms(2) n53 by linarith
  also have "(2::real) ^ 53 = 2 powr of_int 53" by (simp add: powr_realpow [symmetric])
  finally have "of_int e < (of_int 53 :: real)" by (simp only: powr_less_cancel_iff)
  then have e52: "e \<le> 52" by simp
  define p where "p = (2::int) ^ nat (52 - e)"
  define u where "u = (2::real) powr (of_int e - 52)"
  have u: "0 < u" by (simp add: u_def)
  have pu: "of_int p * u = 1"
  proof -
    have "(of_int p :: real) = 2 ^ nat (52 - e)" by (simp add: p_def)
    also have "\<dots> = 2 powr real (nat (52 - e))" by (simp add: powr_realpow)
    also have "real (nat (52 - e)) = 52 - of_int e" using e52 by simp
    finally have "of_int p * u = 2 powr (52 - of_int e) * 2 powr (of_int e - 52)"
      by (simp add: u_def)
    also have "\<dots> = 2 powr ((52 - of_int e) + (of_int e - 52))"
      by (simp only: powr_add)
    finally show ?thesis by simp
  qed
  have "x / u = x * of_int p" using pu u by (simp add: field_simps)
  also have "\<dots> \<le> of_int n * of_int p"
  proof (rule mult_right_mono [OF assms(2)])
    show "(0::real) \<le> of_int p" by (simp add: p_def)
  qed
  finally have "x / u \<le> of_int (n * p)" by simp
  then have "round_even (x / u) \<le> n * p" by (rule round_even_le)
  then have "(of_int (round_even (x / u)) :: real) \<le> of_int (n * p)" by (simp only: of_int_le_iff)
  then have "of_int (round_even (x / u)) * u \<le> of_int (n * p) * u"
    using u by (simp only: mult_le_cancel_right_pos)
  also have "of_int (n * p) * u = of_int n * (of_int p * u)" by simp
  also have "\<dots> = of_int n" by (simp only: pu mult_1_right)
  finally have "of_int (round_even (x / u)) * u \<le> (of_int n :: real)" .
  moreover have "round_double x = of_int (round_even (x / u)) * u"
    using False pos unfolding round_double_def u_def e_def by simp
  ultimately show ?thesis by simp
qed

lemma shrunk_bound:
  assumes "0 \<le> c" and "c < 2 ^ 53" and "0 < m" and "m < 1"
  shows "py_int (double_mul (real_of_int c) m) = \<lfloor>double_mul (real_of_int c) m\<rfloor>"
    and "py_int (double_mul (real_of_int c) m) \<le> c"
proof -
  have nn: "0 \<le> real_of_int c * m" using assms by simp
  have le: "real_of_int c * m \<le> real_of_int c" using assms by (simp add: mult_left_le)
  have r0: "0 \<le> double_mul (real_of_int c) m"
    unfolding double_mul_def by (rule round_double_nonneg [OF nn])
  have r1: "double_mul (real_of_int c) m \<le> real_of_int c"
    unfolding double_mul_def by (rule round_double_le_int [OF nn le assms(2)])
  show "py_int (double_mul (real_of_int c) m) = \<lfloor>double_mul (real_of_int c) m\<rfloor>"
    using r0 by (simp add: py_int_def)
  have "\<lfloor>double_mul (real_of_int c) m\<rfloor> \<le> c" using r1 by linarith
  then show "py_int (double_mul (real_of_int c) m) \<le> c" using r0 by (simp add: py_int_def)
qed

text \<open>The index and the test of \<open>rank_check\<close>.\<close>

lemma dot_conj_T: "dot (conj_T U) U = Inr (gram U)"
  unfolding dot_def gram_def conj_T_def
  by (auto intro!: mk2_cong arg_cong [where f = sum_list])

lemma first_index_spec:
  "list_ex p xs \<Longrightarrow>
   first_index p xs < length xs \<and> p (xs ! first_index p xs) \<and>
   (\<forall>j < first_index p xs. \<not> p (xs ! j))"
proof (induction xs)
  case Nil
  then show ?case by simp
next
  case (Cons x xs)
  show ?case
  proof (cases "p x")
    case True
    then show ?thesis by simp
  next
    case False
    with Cons show ?thesis by (auto simp: nth_Cons split: nat.splits)
  qed
qed

lemma fdiv_NaN_iff: "fdiv a b = NaN \<longleftrightarrow> a = 0 \<and> b = 0"
  by (auto simp: fdiv_def)

lemma fl_le_fdiv:
  assumes "fdiv a b \<noteq> NaN" and "fdiv c d \<noteq> NaN"
  shows "fl_le (fdiv a b) (fdiv c d) \<longleftrightarrow>
         ((b = 0 \<and> a < 0) \<or> (d = 0 \<and> 0 < c) \<or> (b \<noteq> 0 \<and> d \<noteq> 0 \<and> a / b \<le> c / d))"
  using assms by (auto simp: fdiv_def split: if_splits)

lemma argmax_spec_nan:
  assumes "NaN \<in> set qs"
  shows "argmax qs < length qs" and "qs ! argmax qs = NaN" and "\<And>j. j < argmax qs \<Longrightarrow> qs ! j \<noteq> NaN"
proof -
  from assms have ex: "list_ex (\<lambda>q. q = NaN) qs" by (auto simp: list_ex_iff)
  then have k: "argmax qs = first_index (\<lambda>q. q = NaN) qs" by (simp add: argmax_def)
  from first_index_spec [OF ex]
  show "argmax qs < length qs" "qs ! argmax qs = NaN" "\<And>j. j < argmax qs \<Longrightarrow> qs ! j \<noteq> NaN"
    unfolding k by simp_all
qed

lemma argmax_spec_max:
  assumes "qs \<noteq> []" and "NaN \<notin> set qs"
  shows "argmax qs < length qs"
    and "\<And>j. j < length qs \<Longrightarrow> fl_le (qs ! j) (qs ! argmax qs)"
    and "\<And>j. j < argmax qs \<Longrightarrow> \<not> fl_le (qs ! argmax qs) (qs ! j)"
proof -
  from assms(2) have nex: "\<not> list_ex (\<lambda>q. q = NaN) qs" by (auto simp: list_ex_iff)
  let ?P = "\<lambda>q. list_all (\<lambda>y. fl_le y q) qs"
  have k: "argmax qs = first_index ?P qs" using nex by (simp add: argmax_def)
  have ex: "list_ex ?P qs"
    using greatest_exists [OF assms] by (auto simp: list_ex_iff list_all_iff)
  from first_index_spec [OF ex] have
    lt: "argmax qs < length qs" and mx: "?P (qs ! argmax qs)" and
    fst: "\<And>j. j < argmax qs \<Longrightarrow> \<not> ?P (qs ! j)"
    unfolding k by simp_all
  show "argmax qs < length qs" by (rule lt)
  show "fl_le (qs ! j) (qs ! argmax qs)" if "j < length qs" for j
    using mx that by (auto simp: list_all_iff)
  show "\<not> fl_le (qs ! argmax qs) (qs ! j)" if "j < argmax qs" for j
  proof
    assume le: "fl_le (qs ! argmax qs) (qs ! j)"
    have "?P (qs ! j)"
      unfolding list_all_iff
    proof
      fix y assume "y \<in> set qs"
      then have "fl_le y (qs ! argmax qs)" using mx by (auto simp: list_all_iff)
      then show "fl_le y (qs ! j)" using le by (rule fl_le_trans)
    qed
    with fst [OF that] show False by simp
  qed
qed

lemma quots_nth:
  assumes "j + 1 < length ev"
  shows "map (\<lambda>(a, b). fdiv a b) (zip (butlast ev) (tl ev)) ! j = fdiv (ev ! j) (ev ! (j + 1))"
  using assms by (simp add: nth_butlast nth_tl)

lemma quots_length: "length (map (\<lambda>(a, b). fdiv a b) (zip (butlast ev) (tl ev))) = length ev - 1"
  by simp

lemma argmax_quots:
  assumes "map (\<lambda>(a, b). fdiv a b) (zip (butlast ev) (tl ev)) \<noteq> []"
  shows "max_ratio_index ev (argmax (map (\<lambda>(a, b). fdiv a b) (zip (butlast ev) (tl ev))))"
proof -
  define qs where "qs = map (\<lambda>(a, b). fdiv a b) (zip (butlast ev) (tl ev))"
  define k where "k = argmax qs"
  have ne: "qs \<noteq> []" using assms by (simp add: qs_def)
  have len: "length qs = length ev - 1" by (simp add: qs_def)
  have nth: "qs ! j = fdiv (ev ! j) (ev ! (j + 1))" if "j < length ev - 1" for j
    unfolding qs_def using that by (intro quots_nth) simp
  have nan: "qs ! j = NaN \<longleftrightarrow> ratio_nan ev j" if "j < length ev - 1" for j
    using nth [OF that] by (simp add: fdiv_NaN_iff ratio_nan_def)
  have ex: "NaN \<in> set qs \<longleftrightarrow> list_ex (ratio_nan ev) [0..<length ev - 1]"
  proof -
    have "NaN \<in> set qs \<longleftrightarrow> (\<exists>j < length qs. qs ! j = NaN)" by (auto simp: in_set_conv_nth)
    also have "\<dots> \<longleftrightarrow> (\<exists>j < length ev - 1. ratio_nan ev j)" using nan len by auto
    finally show ?thesis by (auto simp: list_ex_iff)
  qed
  have "max_ratio_index ev k"
  proof (cases "NaN \<in> set qs")
    case True
    note sp = argmax_spec_nan [OF True, folded k_def]
    have kk: "k < length ev - 1" using sp(1) len by simp
    have "ratio_nan ev k" using sp(2) nan [OF kk] by simp
    moreover have "\<not> ratio_nan ev j" if "j < k" for j
    proof -
      have "j < length ev - 1" using that kk by simp
      from nan [OF this] sp(3) [OF that] show ?thesis by simp
    qed
    moreover have "k + 1 < length ev" using kk by simp
    ultimately show ?thesis
      using True ex by (simp add: max_ratio_index_def list_all_iff)
  next
    case False
    note sp = argmax_spec_max [OF ne False, folded k_def]
    have kk: "k < length ev - 1" using sp(1) len by simp
    have nn: "fdiv (ev ! j) (ev ! (j + 1)) \<noteq> NaN" if "j < length ev - 1" for j
    proof -
      have "qs ! j \<in> set qs" using that len by simp
      then show ?thesis using False nth [OF that] by auto
    qed
    have le: "fl_le (qs ! i) (qs ! j) \<longleftrightarrow> ratio_le ev i j"
      if "i < length ev - 1" "j < length ev - 1" for i j
      unfolding nth [OF that(1)] nth [OF that(2)] ratio_le_def
      by (rule fl_le_fdiv [OF nn [OF that(1)] nn [OF that(2)]])
    have "ratio_le ev j k" if "j < length ev - 1" for j
    proof -
      have "fl_le (qs ! j) (qs ! k)" using sp(2) [of j] that len by simp
      then show ?thesis using le [OF that kk] by simp
    qed
    moreover have "\<not> ratio_le ev k j" if "j < k" for j
    proof -
      have "j < length ev - 1" using that kk by simp
      with sp(3) [OF that] le [OF kk this] show ?thesis by simp
    qed
    moreover have "k + 1 < length ev" using kk by simp
    ultimately show ?thesis
      using False ex by (simp add: max_ratio_index_def list_all_iff)
  qed
  then show ?thesis by (simp add: k_def qs_def)
qed

lemma rank_check_Inr:
  assumes "rank_check L U c = Inr (k, mu)"
  shows "\<exists>es. eigvalsh L (gram U) = Inr es \<and> max_ratio_index (rev (sort es)) k \<and>
              fl_greater mu rot = overestimated (rev (sort es)) k c rot"
proof -
  from assms obtain es where
    e: "eigvalsh L (gram U) = Inr es" and
    q: "map (\<lambda>(a, b). fdiv a b) (zip (butlast (rev (sort es))) (tl (rev (sort es)))) \<noteq> []" and
    k: "k = argmax (map (\<lambda>(a, b). fdiv a b) (zip (butlast (rev (sort es))) (tl (rev (sort es)))))" and
    mu: "mu = fdiv (real_of_int (c - 1) * rev (sort es) ! k) (sum_list (rev (sort es)) - rev (sort es) ! k)"
    unfolding rank_check_def dot_conj_T bindE_Inr_iff Let_def by (auto split: if_splits)
  have "max_ratio_index (rev (sort es)) k" unfolding k by (rule argmax_quots [OF q])
  moreover have "fl_greater mu rot = overestimated (rev (sort es)) k c rot"
    unfolding mu overestimated_def fdiv_def by simp
  ultimately show ?thesis using e by blast
qed

text \<open>One pass: the rank does not grow, and \<open>U\<close> has as many columns and \<open>V\<close> as many rows
  as the rank says, before and after.\<close>

lemma lrqmc_step_rank:
  assumes ok: "lib_ok L" and m: "0 < p_rank_mult P" "p_rank_mult P < 1"
    and inv: "s_c_rank s = int (shape0 (s_V s))" and small: "s_c_rank s < 2 ^ 53"
    and step: "lrqmc_step L P s = Inr s1"
  shows "s_c_rank s1 \<le> s_c_rank s"
    and "s_c_rank s1 = int (shape0 (s_V s1))"
    and "s_c_rank s1 = int (shape1 (s_U s1))"
    and "\<exists>U1 V1 es k.
          update_U L (s_X s) (s_V s) (s_c_rank s) (p_reg_coef P) = Inr U1 \<and>
          update_V L (s_X s) U1 (s_c_rank s) (p_reg_coef P) = Inr V1 \<and>
          eigvalsh L (gram U1) = Inr es \<and> max_ratio_index (rev (sort es)) k \<and>
          (overestimated (rev (sort es)) k (s_c_rank s) (p_rot P) \<longrightarrow>
             s_c_rank s1 = max (int k + 2) \<lfloor>double_mul (real_of_int (s_c_rank s)) (p_rank_mult P)\<rfloor> \<and>
             s_U s1 = slice_cols U1 (s_c_rank s1) \<and> s_V s1 = slice_rows V1 (s_c_rank s1) \<and>
             rows (s_U s1) = map (take (nat (s_c_rank s1))) (rows U1) \<and>
             rows (s_V s1) = take (nat (s_c_rank s1)) (rows V1)) \<and>
          (\<not> overestimated (rev (sort es)) k (s_c_rank s) (p_rot P) \<longrightarrow>
             s_c_rank s1 = s_c_rank s \<and> s_U s1 = U1 \<and> s_V s1 = V1)"
proof -
  from lrqmc_step_Inr [OF step] obtain U1 V1 k mu where
    uU: "update_U L (s_X s) (s_V s) (s_c_rank s) (p_reg_coef P) = Inr U1" and
    uV: "update_V L (s_X s) U1 (s_c_rank s) (p_reg_coef P) = Inr V1" and
    rc: "rank_check L U1 (s_c_rank s) = Inr (k, mu)" and
    c1: "s_c_rank s1 = (if fl_greater mu (p_rot P)
           then shrunk_rank k (s_c_rank s) (p_rank_mult P) else s_c_rank s)" and
    U2: "s_U s1 = (if fl_greater mu (p_rot P) then slice_cols U1 (s_c_rank s1) else U1)" and
    V2: "s_V s1 = (if fl_greater mu (p_rot P) then slice_rows V1 (s_c_rank s1) else V1)"
    by blast
  from rank_check_Inr [OF rc, of "p_rot P"] obtain es where
    es: "eigvalsh L (gram U1) = Inr es" and mx: "max_ratio_index (rev (sort es)) k" and
    fire: "fl_greater mu (p_rot P) = overestimated (rev (sort es)) k (s_c_rank s) (p_rot P)"
    by blast
  have cU: "shape1 U1 = shape0 (s_V s)" using update_U_shape(2) [OF ok uU inv] .
  then have cV: "shape0 V1 = shape0 (s_V s)" using update_V_shape(1) [OF ok uV] inv by simp
  have k2: "int k + 2 \<le> s_c_rank s" using rank_check_bound [OF ok rc] cU inv by simp
  have c0: "0 \<le> s_c_rank s" using inv by simp
  note pi = shrunk_bound [OF c0 small m]
  have sh: "shrunk_rank k (s_c_rank s) (p_rank_mult P)
            = max (int k + 2) \<lfloor>double_mul (real_of_int (s_c_rank s)) (p_rank_mult P)\<rfloor>"
    by (simp add: shrunk_rank_def pi(1))
  have le: "shrunk_rank k (s_c_rank s) (p_rank_mult P) \<le> s_c_rank s"
    and ge: "0 \<le> shrunk_rank k (s_c_rank s) (p_rank_mult P)"
    using k2 pi(2) by (simp_all add: shrunk_rank_def)
  show "s_c_rank s1 \<le> s_c_rank s" using c1 le by simp
  show "s_c_rank s1 = int (shape0 (s_V s1))"
    using c1 V2 cV inv le ge by (auto simp: slice_rows_def py_stop_def)
  show "s_c_rank s1 = int (shape1 (s_U s1))"
    using c1 U2 cU inv le ge by (auto simp: slice_cols_def py_stop_def)
  have cut: "rows (s_U s1) = map (take (nat (s_c_rank s1))) (rows U1) \<and>
             rows (s_V s1) = take (nat (s_c_rank s1)) (rows V1)"
    if "fl_greater mu (p_rot P)"
    using that c1 U2 V2 cU cV inv le ge by (auto simp: slice_cols_def slice_rows_def py_stop_def)
  show "\<exists>U1 V1 es k.
          update_U L (s_X s) (s_V s) (s_c_rank s) (p_reg_coef P) = Inr U1 \<and>
          update_V L (s_X s) U1 (s_c_rank s) (p_reg_coef P) = Inr V1 \<and>
          eigvalsh L (gram U1) = Inr es \<and> max_ratio_index (rev (sort es)) k \<and>
          (overestimated (rev (sort es)) k (s_c_rank s) (p_rot P) \<longrightarrow>
             s_c_rank s1 = max (int k + 2) \<lfloor>double_mul (real_of_int (s_c_rank s)) (p_rank_mult P)\<rfloor> \<and>
             s_U s1 = slice_cols U1 (s_c_rank s1) \<and> s_V s1 = slice_rows V1 (s_c_rank s1) \<and>
             rows (s_U s1) = map (take (nat (s_c_rank s1))) (rows U1) \<and>
             rows (s_V s1) = take (nat (s_c_rank s1)) (rows V1)) \<and>
          (\<not> overestimated (rev (sort es)) k (s_c_rank s) (p_rot P) \<longrightarrow>
             s_c_rank s1 = s_c_rank s \<and> s_U s1 = U1 \<and> s_V s1 = V1)"
    apply (rule exI [of _ U1], rule exI [of _ V1], rule exI [of _ es], rule exI [of _ k])
    using uU uV es mx c1 U2 V2 sh cut by (simp add: fire [symmetric])
qed

lemma uniform_Inr:
  assumes "uniform R r c g = Inr (A, g1)"
  shows "0 \<le> r" and "0 \<le> c" and "shape0 A = nat r" and "shape1 A = nat c"
  using assms by (auto simp: uniform_def split: if_splits prod.splits)

lemma init_factors_Inr:
  assumes "init_factors R N M c g = Inr (U, V, g1)"
  shows "0 \<le> c" and "shape0 U = 2 * N" and "shape1 U = nat c"
    and "shape0 V = nat c" and "shape1 V = 2 * M"
proof -
  from assms obtain Ur Ui Vr Vi ga gb gc where
    a: "uniform R (int (2 * N)) c g = Inr (Ur, ga)" and
    b: "uniform R c (int (2 * M)) gb = Inr (Vr, gc)" and
    U: "U = complex_of_parts Ur Ui" and V: "V = complex_of_parts Vr Vi"
    by (auto simp: init_factors_def bindE_Inr_iff split: prod.splits)
  note ua = uniform_Inr [OF a] and ub = uniform_Inr [OF b]
  show "0 \<le> c" by (rule ua(2))
  show "shape0 U = 2 * N" "shape1 U = nat c" using ua by (simp_all add: U complex_of_parts_def)
  show "shape0 V = nat c" "shape1 V = 2 * M" using ub by (simp_all add: V complex_of_parts_def)
qed

lemma lrqmc_init_rank:
  assumes "lrqmc_init R g entropy qmat msk init_rank reg_coef max_iter rel_tol rot rank_mult
             random_state = Inr (P, s0)"
  shows "s_c_rank s0 = initial_rank init_rank (dim0 qmat) (dim1 qmat)"
    and "s_c_rank s0 = int (shape0 (s_V s0))"
    and "s_c_rank s0 = int (shape1 (s_U s0))"
    and "p_rank_mult P = rank_mult" and "p_rot P = rot" and "p_reg_coef P = reg_coef"
proof -
  from lrqmc_init_Inr [OF assms] obtain U V g0 g1 where
    f: "init_factors R (dim0 qmat) (dim1 qmat) (initial_rank init_rank (dim0 qmat) (dim1 qmat)) g0
      = Inr (U, V, g1)" and
    s: "s_U s0 = U" "s_V s0 = V" "s_c_rank s0 = initial_rank init_rank (dim0 qmat) (dim1 qmat)" and
    p: "p_rank_mult P = rank_mult" "p_rot P = rot" "p_reg_coef P = reg_coef"
    by auto
  note i = init_factors_Inr [OF f]
  show "s_c_rank s0 = initial_rank init_rank (dim0 qmat) (dim1 qmat)" by (rule s(3))
  show "s_c_rank s0 = int (shape0 (s_V s0))" using i(1,4) s by simp
  show "s_c_rank s0 = int (shape1 (s_U s0))" using i(1,3) s by simp
  show "p_rank_mult P = rank_mult" "p_rot P = rot" "p_reg_coef P = reg_coef" by (rule p)+
qed

lemma lrqmc_steps_rank:
  assumes "lib_ok L" and "0 < p_rank_mult P" and "p_rank_mult P < 1"
  shows "s_c_rank s = int (shape0 (s_V s)) \<Longrightarrow> s_c_rank s < 2 ^ 53 \<Longrightarrow>
         lrqmc_steps L P k s = Inr s' \<Longrightarrow>
         s_c_rank s' \<le> s_c_rank s \<and> s_c_rank s' = int (shape0 (s_V s'))"
proof (induction k arbitrary: s)
  case 0
  then show ?case by simp
next
  case (Suc k)
  from Suc.prems(3) obtain s1 where
    st: "lrqmc_step L P s = Inr s1" and re: "lrqmc_steps L P k s1 = Inr s'"
    by (auto simp: bindE_Inr_iff)
  note r = lrqmc_step_rank(1,2) [OF assms Suc.prems(1,2) st]
  have "s_c_rank s1 < 2 ^ 53" using r(1) Suc.prems(2) by simp
  from Suc.IH [OF r(2) this re] r(1) show ?case by simp
qed

lemma initial_rank_le: "initial_rank init_rank N M \<le> int (min N M)"
  by (auto simp: initial_rank_def split: option.splits)

text \<open>The rank of the result of a run is at most the rank it started with.\<close>

lemma lrqmc_final_rank:
  assumes "lib_ok L" and "0 < rank_mult" and "rank_mult < 1"
    and "int (min (dim0 qmat) (dim1 qmat)) < 2 ^ 53"
    and "lrqmc_init R g entropy qmat msk init_rank reg_coef max_iter rel_tol rot rank_mult
           random_state = Inr (P, s0)"
    and "lrqmc_loop L P s0 = Inr sf"
  shows "s_c_rank sf \<le> initial_rank init_rank (dim0 qmat) (dim1 qmat)"
    and "int (shape1 (s_U sf)) = s_c_rank sf" and "int (shape0 (s_V sf)) = s_c_rank sf"
proof -
  note i = lrqmc_init_rank [OF assms(5)]
  have m: "0 < p_rank_mult P" "p_rank_mult P < 1" using assms(2,3) i(4) by simp_all
  have small: "s_c_rank s0 < 2 ^ 53"
    using initial_rank_le [of init_rank "dim0 qmat" "dim1 qmat"] assms(4) i(1) by linarith
  have "s_flag s0" using lrqmc_init_Inr [OF assms(5)] by auto
  from lrqmc_loop_last_step [OF assms(6) this] obtain s' where
    a: "lrqmc_steps L P (s_ix sf - s_ix s0) s0 = Inr s'" and b: "lrqmc_step L P s' = Inr sf"
    by blast
  from lrqmc_steps_rank [OF assms(1) m i(2) small a] have
    le: "s_c_rank s' \<le> s_c_rank s0" and inv: "s_c_rank s' = int (shape0 (s_V s'))"
    by simp_all
  have small': "s_c_rank s' < 2 ^ 53" using le small by simp
  note r = lrqmc_step_rank(1,2,3) [OF assms(1) m inv small' b]
  show "s_c_rank sf \<le> initial_rank init_rank (dim0 qmat) (dim1 qmat)" using r(1) le i(1) by simp
  show "int (shape1 (s_U sf)) = s_c_rank sf" "int (shape0 (s_V sf)) = s_c_rank sf"
    using r(2,3) by simp_all
qed

lemma lrqmc_steps_length:
  "lrqmc_steps L P k s = Inr s' \<Longrightarrow> length (s_norms s') = length (s_norms s)"
proof (induction k arbitrary: s)
  case 0
  then show ?case by simp
next
  case (Suc k)
  from Suc.prems obtain s1 where
    st: "lrqmc_step L P s = Inr s1" and re: "lrqmc_steps L P k s1 = Inr s'"
    by (auto simp: bindE_Inr_iff)
  from Suc.IH [OF re] lrqmc_step_progress(1) [OF st] show ?case by simp
qed

text \<open>A run that returns has met the tolerance in its last pass: the branch
  \<^verbatim>\<open>elif ix >= max_iter\<close> never ends a run.\<close>

lemma lrqmc_returns_only_converged:
  assumes init: "lrqmc_init R g entropy qmat msk init_rank reg_coef max_iter rel_tol rot rank_mult
             random_state = Inr (P, s0)"
    and loop: "lrqmc_loop L P s0 = Inr sf"
  shows "fl_less (fdiv \<bar>s_norms sf ! (s_ix sf + 1) - s_norms sf ! s_ix sf\<bar> (s_norms sf ! s_ix sf))
           rel_tol"
proof -
  from lrqmc_init_Inr [OF init] have
    fl: "s_flag s0" and len0: "length (s_norms s0) = nat (max_iter + 1)" and
    mi: "p_max_iter P = max_iter" and tol: "p_rel_tol P = rel_tol" and mi0: "0 \<le> max_iter"
    by auto
  from lrqmc_loop_trace [OF loop fl] have stop: "\<not> s_flag sf" by simp
  from lrqmc_loop_last_step [OF loop fl] obtain s' where
    a: "lrqmc_steps L P (s_ix sf - s_ix s0) s0 = Inr s'" and b: "lrqmc_step L P s' = Inr sf"
    by blast
  have len: "length (s_norms s') = nat (max_iter + 1)"
    using lrqmc_steps_length [OF a] len0 by simp
  from lrqmc_step_Inr [OF b] obtain n where
    lt: "s_ix s' + 1 < length (s_norms s')" and
    ns: "s_norms sf = (s_norms s')[s_ix s' + 1 := n]" and
    f: "s_flag sf = (\<not> converged P s' n \<and> int (s_ix s') < p_max_iter P)" and
    ix: "s_ix sf = (if s_flag sf then s_ix s' + 1 else s_ix s')"
    by blast
  have "int (s_ix s') < max_iter" using lt len mi0 by linarith
  with f stop mi have c: "converged P s' n" by simp
  have "s_ix sf = s_ix s'" using ix stop by simp
  then show ?thesis
    using c lt by (simp add: converged_def ns tol)
qed

section \<open>The example runs, evaluated\<close>

lemmas ex_eval = mk3_def upt3 upt6 mk2_def at2_def dot_def conj_T_def upt2 upt4 bindE_def reg_eye_def broadcast2_def
  bc_dim_def bc_at_def pinv_diag_def eigvalsh_diag_def is_diag_def diag_linalg_def Z42_def Z24_def ex_C_def

lemma tile_ex_mask: "tile22 ex_mask = ex_mask_c"
  by (simp add: tile22_def vstack_def hstack_def ex_mask_def ex_mask_c_def)

lemma ex_update_U: "update_U diag_linalg ex_C Z24 2 (1/1000) = Inr Z42"
  by (simp add: update_U_def ex_eval)

lemma ex_update_V: "update_V diag_linalg ex_C Z42 2 (1/1000) = Inr Z24"
  by (simp add: update_V_def ex_eval)

lemma ex_reimpose: "reimpose ex_C (Some ex_mask_c) Z42 Z24 = Inr ex_C"
  by (simp add: reimpose_def ex_eval ex_mask_c_def)

lemma ex_rank_check: "rank_check diag_linalg Z42 2 = Inr (0, NaN)"
  by (simp add: rank_check_def ex_eval Let_def fdiv_def argmax_def)

lemma ex_residual: "residual ex_C Z42 Z24 = Inr (cnorm ex_C)"
  by (simp add: residual_def ex_eval)

lemma draws_zero_rng: "draws (next_double zero_rng) n g = (replicate n 0, g + n)"
  by (induction n arbitrary: g) (simp_all add: zero_rng_def)

lemma uniform_zero_rng:
  "0 \<le> r \<Longrightarrow> 0 \<le> c \<Longrightarrow>
   uniform zero_rng r c g = Inr (mk2 (nat r) (nat c) (\<lambda>i j. 0), g + nat r * nat c)"
proof -
  assume rc: "0 \<le> r" "0 \<le> c"
  have "mk2 (nat r) (nat c) (\<lambda>i j. replicate (nat r * nat c) (0::real) ! (i * nat c + j))
        = mk2 (nat r) (nat c) (\<lambda>i j. 0)"
  proof (rule mk2_cong)
    fix i j assume "i < nat r" "j < nat c"
    then have "i * nat c + j < nat r * nat c"
      by (metis add_less_cancel_left less_le_trans mult_Suc mult_le_mono1 Suc_leI add.commute)
    then show "replicate (nat r * nat c) (0::real) ! (i * nat c + j) = 0" by simp
  qed
  then show ?thesis using rc by (simp add: uniform_def draws_zero_rng)
qed

lemma ex_init_factors: "init_factors zero_rng 2 2 2 g = Inr (Z42, Z24, g + 32)"
  by (simp add: init_factors_def uniform_zero_rng bindE_def complex_of_parts_def mk2_def at2_def
      upt2 upt4 Z42_def mk_eval Z24_def complex_eq_iff)

lemma cnorm_ex_C: "cnorm ex_C = sqrt 60"
  by (simp add: cnorm_def ex_C_def cmod_power2)

lemma ex_init:
  "0 \<le> mi \<Longrightarrow>
   lrqmc_init zero_rng g e ex_img ex_mask None (1 / 1000) mi (1 / 1000) 10 (9 / 10) (Some 0) =
   Inr (ex_P mi, ex_s ((replicate (nat (mi + 1)) 0)[0 := cnorm ex_C]) 0 True)"
proof -
  assume "0 \<le> mi"
  moreover have "qm2cm ex_img (Some ex_mask) = Inr (ex_C, Some ex_mask_c)"
    using qm2cm_ex_img by (auto simp: qm2cm_def Let_def tile_ex_mask split: if_splits)
  moreover have "dim0 ex_img = 2" "dim1 ex_img = 2" by (simp_all add: ex_img_def)
  moreover have "initial_rank None 2 2 = 2" by (simp add: initial_rank_def)
  moreover have "seed_state zero_rng 0 = 0" by (simp add: zero_rng_def)
  ultimately show ?thesis
    by (simp add: lrqmc_init_def bindE_def np_random_seed_def ex_init_factors ex_residual
        ex_P_def ex_s_def)
qed

lemma ex_step:
  "lrqmc_step diag_linalg (ex_P mi) (ex_s ns i f) =
     (if length ns \<le> i + 1 then Inl IndexError
      else if fl_less (fdiv \<bar>cnorm ex_C - ns ! i\<bar> (ns ! i)) (1 / 1000)
        then Inr (ex_s (ns[i + 1 := cnorm ex_C]) i False)
      else if mi \<le> int i then Inr (ex_s (ns[i + 1 := cnorm ex_C]) i False)
      else Inr (ex_s (ns[i + 1 := cnorm ex_C]) (i + 1) True))"
  by (simp add: lrqmc_step_def ex_P_def ex_s_def ex_update_U ex_update_V ex_reimpose ex_rank_check
      ex_residual bindE_def Let_def)

lemma ex_step_3:
  "lrqmc_step diag_linalg (ex_P 3) (ex_s [cnorm ex_C, 0, 0, 0] 0 True)
   = Inr (ex_s [cnorm ex_C, cnorm ex_C, 0, 0] 0 False)"
  by (simp add: ex_step fdiv_def cnorm_ex_C)

lemma ex_loop_3:
  "lrqmc_loop diag_linalg (ex_P 3) (ex_s [cnorm ex_C, 0, 0, 0] 0 True)
   = Inr (ex_s [cnorm ex_C, cnorm ex_C, 0, 0] 0 False)"
  apply (subst lrqmc_loop.simps)
  apply (simp add: ex_step_3)
  apply (simp add: ex_s_def lrqmc_loop_stopped)
  done

lemma ex_init_3:
  "lrqmc_init zero_rng g e ex_img ex_mask None (1 / 1000) 3 (1 / 1000) 10 (9 / 10) (Some 0) =
   Inr (ex_P 3, ex_s [cnorm ex_C, 0, 0, 0] 0 True)"
  by (simp add: ex_init numeral_eq_Suc)

lemma cm2qm_ex_C: "cm2qm ex_C = Inr ex_img"
  by (simp add: cm2qm_def ex_C_def ex_img_def Let_def stack4_def mk3_def at2_def map_array2_def
      upt2 upt4)

lemma ex_run_3:
  "lrqmc diag_linalg zero_rng g e ex_img ex_mask None (1 / 1000) 3 (1 / 1000) 10 (9 / 10) True (Some 0)
   = Inr (ex_img, Z42, Z24, Some [cnorm ex_C, cnorm ex_C, 0, 0])"
  by (simp add: lrqmc_def ex_init_3 ex_loop_3 bindE_def) (simp add: ex_s_def cm2qm_ex_C)

lemma ex_run_0:
  "lrqmc diag_linalg zero_rng g e ex_img ex_mask None (1 / 1000) 0 (1 / 1000) 10 (9 / 10) rn (Some 0)
   = Inl IndexError"
  apply (simp add: lrqmc_def ex_init bindE_def)
  apply (subst lrqmc_loop.simps)
  apply (simp add: ex_step)
  apply (simp add: ex_s_def)
  done

lemma bl_update_U: "update_U diag_linalg Z44 Z24 2 (1/1000) = Inr Z42"
  by (simp add: update_U_def ex_eval Z44_def mk_eval)

lemma bl_update_V: "update_V diag_linalg Z44 Z42 2 (1/1000) = Inr Z24"
  by (simp add: update_V_def ex_eval Z44_def mk_eval)

lemma bl_reimpose: "reimpose Z44 (Some ex_mask_c) Z42 Z24 = Inr Z44"
  by (simp add: reimpose_def ex_eval ex_mask_c_def Z44_def mk_eval)

lemma bl_residual: "residual Z44 Z42 Z24 = Inr 0"
  by (simp add: residual_def ex_eval Z44_def mk_eval cnorm_def)

lemma qm2cm_bl_img: "qm2cm bl_img (Some ex_mask) = Inr (Z44, Some ex_mask_c)"
  by (simp add: qm2cm_def bl_img_def mk_eval Z44_def Let_def mk2_def vstack_def hstack_def map_array2_def
      at3_def upt2 complex_eq_iff tile_ex_mask)

lemma bl_init:
  "0 \<le> mi \<Longrightarrow>
   lrqmc_init zero_rng g e bl_img ex_mask None (1 / 1000) mi (1 / 1000) 10 (9 / 10) (Some 0) =
   Inr (bl_P mi, bl_s ((replicate (nat (mi + 1)) 0)[0 := 0]) 0 True)"
proof -
  assume "0 \<le> mi"
  moreover have "dim0 bl_img = 2" "dim1 bl_img = 2" by (simp_all add: bl_img_def mk_eval)
  moreover have "initial_rank None 2 2 = 2" by (simp add: initial_rank_def)
  moreover have "seed_state zero_rng 0 = 0" by (simp add: zero_rng_def)
  ultimately show ?thesis
    by (simp add: lrqmc_init_def bindE_def np_random_seed_def ex_init_factors bl_residual
        bl_P_def bl_s_def qm2cm_bl_img)
qed

lemma bl_step:
  "lrqmc_step diag_linalg (bl_P mi) (bl_s ns i f) =
     (if length ns \<le> i + 1 then Inl IndexError
      else if fl_less (fdiv \<bar>0 - ns ! i\<bar> (ns ! i)) (1 / 1000)
        then Inr (bl_s (ns[i + 1 := 0]) i False)
      else if mi \<le> int i then Inr (bl_s (ns[i + 1 := 0]) i False)
      else Inr (bl_s (ns[i + 1 := 0]) (i + 1) True))"
  by (simp add: lrqmc_step_def bl_P_def bl_s_def bl_update_U bl_update_V bl_reimpose ex_rank_check
      bl_residual bindE_def Let_def)

lemma bl_run_1:
  "lrqmc diag_linalg zero_rng g e bl_img ex_mask None (1 / 1000) 1 (1 / 1000) 10 (9 / 10) rn (Some 0)
   = Inl IndexError"
proof -
  have s1: "lrqmc_step diag_linalg (bl_P 1) (bl_s [0, 0] 0 True) = Inr (bl_s [0, 0] 1 True)"
    by (simp add: bl_step fdiv_def)
  have s2: "lrqmc_step diag_linalg (bl_P 1) (bl_s [0, 0] (Suc 0) True) = Inl IndexError"
    by (simp add: bl_step)
  have f: "s_flag (bl_s ns i True)" for ns i by (simp add: bl_s_def)
  have "lrqmc_loop diag_linalg (bl_P 1) (bl_s [0, 0] 0 True) = Inl IndexError"
    apply (subst lrqmc_loop.simps)
    apply (simp add: s1 f)
    apply (subst lrqmc_loop.simps)
    apply (simp add: s2 f)
    done
  then show ?thesis
    by (simp add: lrqmc_def bl_init bindE_def numeral_eq_Suc)
qed

lemmas ex3_eval = mk2_def at2_def dot_def conj_T_def upt2 upt3 upt6 bindE_def reg_eye_def
  broadcast2_def bc_dim_def bc_at_def pinv_diag_def eigvalsh_diag_def is_diag_def diag_linalg_def
  X66_def Z63_def V36_def U63_def W36_def U62_def W26_def D66_def

lemma ex3_update_U: "update_U diag_linalg X66 V36 3 (1 / 4) = Inr U63"
  by (simp add: update_U_def ex3_eval)

lemma ex3_update_V: "update_V diag_linalg X66 U63 3 (1 / 4) = Inr W36"
  by (simp add: update_V_def ex3_eval)

lemma ex3_reimpose: "reimpose X66 (Some ex3_mask_c) U63 W36 = Inr X66"
  by (simp add: reimpose_def ex3_eval ex3_mask_c_def)

lemma ex3_rank_check: "rank_check diag_linalg U63 3 = Inr (0, Fin 100)"
  by (simp add: rank_check_def ex3_eval Let_def fdiv_def argmax_def)

lemma ex3_slices: "slice_cols U63 2 = U62" "slice_rows W36 2 = W26"
  by (simp_all add: slice_cols_def slice_rows_def py_stop_def U63_def mk_eval U62_def W36_def W26_def)

lemma ex3_residual: "residual X66 U62 W26 = Inr (cnorm D66)"
  by (simp add: residual_def ex3_eval)

lemma ex3_residual0: "residual X66 Z63 V36 = Inr (cnorm X66)"
  by (simp add: residual_def ex3_eval)

lemma cnorm_X66: "cnorm X66 = sqrt 204"
  by (simp add: cnorm_def X66_def mk_eval)

lemma cnorm_D66: "0 < cnorm D66" "cnorm D66 \<le> cnorm X66"
proof -
  have d: "cnorm D66 = sqrt (100 / 160801 + 1 / 25 + 103)"
    by (simp add: cnorm_def D66_def mk_eval power2_eq_square)
  show "0 < cnorm D66" unfolding d by simp
  show "cnorm D66 \<le> cnorm X66" unfolding d cnorm_X66 by simp
qed

lemma ex3_converged:
  "fl_less (fdiv \<bar>cnorm D66 - cnorm X66\<bar> (cnorm X66)) 1"
proof -
  have p: "0 < cnorm X66" by (simp add: cnorm_X66)
  have "\<bar>cnorm D66 - cnorm X66\<bar> = cnorm X66 - cnorm D66" using cnorm_D66(2) by simp
  also have "\<dots> < cnorm X66" using cnorm_D66(1) by simp
  finally have "\<bar>cnorm D66 - cnorm X66\<bar> / cnorm X66 < 1" using p by simp
  then show ?thesis using p by (simp add: fdiv_def)
qed

lemma double_mul_3_09: "double_mul 3 (9 / 10) = 6079859496950170 / 2 ^ 51"
proof -
  have "round_double (27 / 10) =
      of_int (round_even ((27 / 10) / 2 powr (of_int 1 - 52))) * 2 powr (of_int 1 - 52)"
    by (rule round_double_at) simp_all
  moreover have "round_even ((27 / 10) / 2 powr (of_int 1 - 52)) = 6079859496950170"
    by (rule round_even_near) (simp_all add: powr_minus_divide)
  ultimately show ?thesis by (simp add: double_mul_def powr_minus_divide)
qed

lemma double_mul_10_d07: "double_mul 10 d07 = 7"
proof -
  have "round_double (10 * d07) =
      of_int (round_even ((10 * d07) / 2 powr (of_int 2 - 52))) * 2 powr (of_int 2 - 52)"
    by (rule round_double_at) (simp_all add: d07_def)
  moreover have "round_even ((10 * d07) / 2 powr (of_int 2 - 52))
      = (if even (7881299347898367::int) then 7881299347898367 else 7881299347898367 + 1)"
    by (rule round_even_tie) (simp add: d07_def powr_minus_divide)
  ultimately show ?thesis by (simp add: double_mul_def powr_minus_divide)
qed

lemma double_mul_50_d058: "double_mul 50 d058 = 8162774324609023 / 2 ^ 48"
proof -
  have "round_double (50 * d058) =
      of_int (round_even ((50 * d058) / 2 powr (of_int 4 - 52))) * 2 powr (of_int 4 - 52)"
    by (rule round_double_at) (simp_all add: d058_def)
  moreover have "round_even ((50 * d058) / 2 powr (of_int 4 - 52)) = 8162774324609023"
    by (rule round_even_near) (simp_all add: d058_def powr_minus_divide)
  ultimately show ?thesis by (simp add: double_mul_def powr_minus_divide)
qed

text \<open>The rank of line 262 at two inputs where the rounding of the product matters: the
  exact products are below 7 and below 29.\<close>

lemma shrunk_rank_examples:
  "shrunk_rank 0 10 d07 = 7" "shrunk_rank 0 50 d058 = 28" "shrunk_rank 0 3 (9 / 10) = 2"
  by (simp_all add: shrunk_rank_def py_int_def double_mul_10_d07 double_mul_50_d058
      double_mul_3_09)

lemma exact_product_examples: "\<lfloor>10 * d07\<rfloor> = 6" "\<lfloor>50 * d058\<rfloor> = 28"
  by (simp_all add: d07_def d058_def)

lemma ex3_step: "lrqmc_step diag_linalg ex3_P ex3_s0 = Inr ex3_s1"
  using ex3_converged
  by (simp add: lrqmc_step_def ex3_P_def ex3_s0_def ex3_s1_def ex3_update_U ex3_update_V
      ex3_reimpose ex3_rank_check ex3_residual ex3_slices bindE_def Let_def shrunk_rank_examples)

lemma ex3_loop: "lrqmc_loop diag_linalg ex3_P ex3_s0 = Inr ex3_s1"
  apply (subst lrqmc_loop.simps)
  apply (simp add: ex3_step)
  apply (simp add: ex3_s0_def ex3_s1_def lrqmc_loop_stopped)
  done

lemma draws_counter:
  "draws (\<lambda>g. (f g, Suc g)) n g = (map (\<lambda>k. f (g + k)) [0..<n], g + n)"
proof (induction n arbitrary: g)
  case 0
  then show ?case by simp
next
  case (Suc n)
  have "map (\<lambda>k. f (g + k)) [0..<Suc n] = f g # map (\<lambda>k. f (Suc g + k)) [0..<n]"
    by (simp add: map_upt_Suc del: upt_Suc)
  then show ?case
    by (simp add: Suc.IH del: upt_Suc)
qed

lemma draws_script_rng:
  "draws (next_double script_rng) n g =
     (map (\<lambda>k. if g + k = 36 \<or> g + k = 43 \<or> g + k = 50 then 1 / 2 else 0) [0..<n], g + n)"
  unfolding script_rng_def by (simp add: draws_counter del: upt_Suc)

lemma ex3_init_factors: "init_factors script_rng 3 3 3 0 = Inr (Z63, V36, 72)"
  by (simp add: init_factors_def uniform_def draws_script_rng bindE_def complex_of_parts_def mk2_def
      at2_def upt3 upt6 Z63_def mk_eval V36_def complex_eq_iff del: upt_Suc)

lemma qm2cm_ex3_img: "qm2cm ex3_img (Some ex3_mask) = Inr (X66, Some ex3_mask_c)"
  by (simp add: qm2cm_def ex3_img_def mk_eval X66_def Let_def mk2_def vstack_def hstack_def map_array2_def
      at3_def upt3 complex_eq_iff tile22_def ex3_mask_def ex3_mask_c_def)

lemma ex3_init:
  "lrqmc_init script_rng g e ex3_img ex3_mask None (1 / 4) 5 1 10 (9 / 10) (Some 0)
   = Inr (ex3_P, ex3_s0)"
proof -
  have "dim0 ex3_img = 3" "dim1 ex3_img = 3" by (simp_all add: ex3_img_def mk_eval)
  moreover have "initial_rank None 3 3 = 3" by (simp add: initial_rank_def)
  moreover have "seed_state script_rng 0 = 0" by (simp add: script_rng_def)
  moreover have "(replicate (nat (5 + 1)) (0::real))[0 := n] = [n, 0, 0, 0, 0, 0]" for n
    by (simp add: numeral_eq_Suc)
  ultimately show ?thesis
    by (simp add: lrqmc_init_def bindE_def np_random_seed_def ex3_init_factors ex3_residual0
        ex3_P_def ex3_s0_def qm2cm_ex3_img)
qed

lemma cm2qm_X66: "cm2qm X66 = Inr ex3_img"
  by (simp add: cm2qm_def X66_def mk_eval ex3_img_def Let_def stack4_def mk3_def at2_def map_array2_def
      upt3 upt4)

lemma ex3_run:
  "lrqmc diag_linalg script_rng g e ex3_img ex3_mask None (1 / 4) 5 1 10 (9 / 10) True (Some 0)
   = Inr (ex3_img, U62, W26, Some [cnorm X66, cnorm D66, 0, 0, 0, 0])"
  by (simp add: lrqmc_def ex3_init ex3_loop bindE_def) (simp add: ex3_s1_def cm2qm_X66)


lemma dot_Z42_Z24: "dot Z42 Z24 = Inr Z44"
  by (simp add: ex_eval Z44_def mk_eval)

lemma bl3_init:
  "lrqmc_init script_rng g e bl3_img ex3_mask None (1 / 1000) 2 (1 / 1000) 5 (1 / 2) (Some 0)
   = Inr (\<lparr>p_X0 = Z66, p_mask_c = Some ex3_mask_c, p_reg_coef = 1 / 1000, p_max_iter = 2,
            p_rel_tol = 1 / 1000, p_rot = 5, p_rank_mult = 1 / 2\<rparr>,
          \<lparr>s_X = Z66, s_U = Z63, s_V = V36, s_c_rank = 3, s_norms = [0, 0, 0], s_ix = 0,
            s_flag = True\<rparr>)"
proof -
  have "dim0 bl3_img = 3" "dim1 bl3_img = 3" by (simp_all add: bl3_img_def mk_eval)
  moreover have "initial_rank None 3 3 = 3" by (simp add: initial_rank_def)
  moreover have "seed_state script_rng 0 = 0" by (simp add: script_rng_def)
  moreover have "(replicate (nat (2 + 1)) (0::real))[0 := n] = [n, 0, 0]" for n
    by (simp add: numeral_eq_Suc)
  moreover have "qm2cm bl3_img (Some ex3_mask) = Inr (Z66, Some ex3_mask_c)"
    by (simp add: qm2cm_def bl3_img_def mk_eval Z66_def Let_def mk2_def vstack_def hstack_def map_array2_def
        at3_def upt3 complex_eq_iff tile22_def ex3_mask_def ex3_mask_c_def)
  moreover have "residual Z66 Z63 V36 = Inr 0"
    by (simp add: residual_def ex3_eval Z66_def mk_eval cnorm_def)
  ultimately show ?thesis
    by (simp add: lrqmc_init_def bindE_def np_random_seed_def ex3_init_factors)
qed



text \<open>The rank test on \<open>U33\<close>: the eigenvalues of \<open>U33\<^sup>H U33\<close> are 16, 4 and 1/4, the quotients 4
  and 16, and the index is 1.\<close>

lemma gram_U33:
  "gram U33 = mk2 3 3 (\<lambda>i j. if i = j then (if i = 0 then 4 else if i = 1 then 16 else 1 / 4) else 0)"
  by (simp add: gram_def U33_def mk2_def at2_def upt3)

lemma U33_eigvalsh: "eigvalsh diag_linalg (gram U33) = Inr [1 / 4, 4, 16]"
  by (simp add: gram_U33 ex3_eval)

lemma U33_rank_check: "rank_check diag_linalg U33 3 = Inr (1, Fin (32 / 65))"
  by (simp add: rank_check_def dot_conj_T bindE_def U33_eigvalsh Let_def fdiv_def argmax_def)

lemma U33_max_ratio: "max_ratio_index [16, 4, 1 / 4] 1" "\<not> max_ratio_index [16, 4, 1 / 4] 0"
  "\<not> overestimated [16, 4, 1 / 4] 1 3 10"
  by (simp_all add: max_ratio_index_def ratio_nan_def ratio_le_def overestimated_def upt2)

section \<open>Shape contracts\<close>

text \<open>
  Claim C9. A tensor whose last axis is not of length 4 makes \<open>conjugate\<close>,
  \<open>frobenius_norm\<close>, \<open>qdot\<close> (in either argument) and \<open>qm2cm\<close> raise \<^verbatim>\<open>ValueError\<close>, the
  result being the exception alone; \<open>qdot\<close> also raises when the column count of its first
  argument is not the row count of its second; \<open>cm2qm\<close> raises on a complex matrix with an
  odd number of rows or of columns.
\<close>

theorem shape_errors:
  "(dim2 Q \<noteq> 4 \<longrightarrow>
      conjugate Q = Inl ValueError \<and> frobenius_norm Q = Inl ValueError \<and>
      qm2cm Q msk = Inl ValueError \<and> qdot Q Q2 = Inl ValueError \<and> qdot Q1 Q = Inl ValueError) \<and>
   (dim1 Q1 \<noteq> dim0 Q2 \<longrightarrow> qdot Q1 Q2 = Inl ValueError) \<and>
   (odd (shape0 C) \<or> odd (shape1 C) \<longrightarrow> cm2qm C = Inl ValueError)"
  by (auto simp: conjugate_def frobenius_norm_def qm2cm_def qdot_def cm2qm_def odd_iff_mod_2_eq_one)

theorem shape_errors_witness:
  "dim2 ex_rgb \<noteq> 4 \<and> dim1 ex_row \<noteq> dim0 ex_row \<and> odd (shape0 ex_odd) \<and>
   conjugate ex_rgb = Inl ValueError \<and> frobenius_norm ex_rgb = Inl ValueError \<and>
   qm2cm ex_rgb None = Inl ValueError \<and> qdot ex_rgb ex_row = Inl ValueError \<and>
   qdot ex_row ex_rgb = Inl ValueError \<and> qdot ex_row ex_row = Inl ValueError \<and>
   cm2qm ex_odd = Inl ValueError"
  using shape_errors [of ex_rgb None ex_row ex_row ex_odd]
  by (simp add: ex_rgb_def ex_row_def ex_odd_def)

section \<open>The isomorphism\<close>

text \<open>
  Claim C7. For every quaternion matrix \<open>Q\<close> of shape \<open>(N, M, 4)\<close> the forward map returns
  a complex matrix, and the inverse map applied to it returns \<open>Q\<close> itself.
\<close>

theorem isomorphism_round_trip:
  assumes "wf3 Q" and "dim2 Q = 4"
  shows "\<exists>C Cm. qm2cm Q msk = Inr (C, Cm) \<and> cm2qm C = Inr Q"
proof -
  let ?n = "dim0 Q" and ?m = "dim1 Q"
  let ?fa = "\<lambda>i j. Complex (at3 Q i j 0) (at3 Q i j 1)"
  let ?fb = "\<lambda>i j. Complex (at3 Q i j 2) (at3 Q i j 3)"
  let ?B = "hstack (map_array2 uminus (map_array2 cnj (mk2 ?n ?m ?fb))) (map_array2 cnj (mk2 ?n ?m ?fa))"
  let ?C = "vstack (hstack (mk2 ?n ?m ?fa) (mk2 ?n ?m ?fb)) ?B"
  have fwd: "qm2cm Q msk = Inr (?C, case msk of None \<Rightarrow> None | Some m \<Rightarrow> Some (tile22 m))"
    using assms(2) by (simp add: qm2cm_def Let_def)
  have sh: "shape0 ?C = 2 * ?n" "shape1 ?C = 2 * ?m"
    by (simp_all add: vstack_def hstack_def map_array2_def)
  have "cm2qm ?C = Inr (mk3 ?n ?m 4 (at3 Q))"
    unfolding cm2qm_def Let_def sh
    apply (simp add: quadrant_a quadrant_b stack4_def del: mk2_sel)
    apply (rule mk3_cong)
    subgoal for i j k
      by (cases "k = 0"; cases "k = 1"; cases "k = 2"; cases "k = 3")
         (simp_all add: at2_def map_array2_def mk2_def)
    done
  also have "mk3 ?n ?m 4 (at3 Q) = Q"
    using mk3_at3 [OF assms(1)] assms(2) by simp
  finally show ?thesis using fwd by blast
qed

theorem isomorphism_round_trip_witness:
  "wf3 ex_img \<and> dim2 ex_img = 4 \<and> qm2cm ex_img None = Inr (ex_C, None) \<and> cm2qm ex_C = Inr ex_img"
  using isomorphism_round_trip [OF wf3_ex_img, of None]
  by (simp add: qm2cm_ex_img wf3_ex_img) (simp add: ex_img_def)

text \<open>
  Claim C8. For every quaternion matrix \<open>Q\<close> of shape \<open>(N, M, 4)\<close>, \<open>frobenius_norm Q\<close> is
  the Frobenius norm of the complex embedding of \<open>Q\<close> divided by \<open>sqrt 2\<close>.
\<close>

theorem norm_agreement:
  assumes "wf3 Q" and "dim2 Q = 4" and "qm2cm Q msk = Inr (C, Cm)"
  shows "frobenius_norm Q = Inr (cnorm C / sqrt 2)"
proof -
  let ?n = "dim0 Q" and ?m = "dim1 Q"
  let ?fa = "\<lambda>i j. Complex (at3 Q i j 0) (at3 Q i j 1)"
  let ?fb = "\<lambda>i j. Complex (at3 Q i j 2) (at3 Q i j 3)"
  let ?g = "\<lambda>z. (cmod z)\<^sup>2"
  let ?s = "\<lambda>k. sum_list (map (\<lambda>i. sum_list (map (\<lambda>j. (at3 Q i j k)\<^sup>2) [0..<?m])) [0..<?n])"
  let ?S = "?s 0 + ?s 1 + ?s 2 + ?s 3"
  have C: "C = vstack (hstack (mk2 ?n ?m ?fa) (mk2 ?n ?m ?fb))
                      (hstack (mk2 ?n ?m (\<lambda>i j. - cnj (?fb i j))) (mk2 ?n ?m (\<lambda>i j. cnj (?fa i j))))"
    using assms(2,3) by (simp add: qm2cm_def Let_def map_array2_mk2)
  have Q: "Q = mk3 ?n ?m 4 (at3 Q)"
    using mk3_at3 [OF assms(1)] assms(2) by simp
  have "sum_list (map (\<lambda>x. x\<^sup>2) (concat (concat (cells Q)))) = ?S"
    by (subst Q) (simp only: sumsq_cells)
  moreover have "sum_list (map ?g (concat (rows C))) = ?S + ?S"
    unfolding C
    by (simp add: vstack_def sumsq_block cmod_power2 sum_list_addf)
  ultimately have "cnorm C = sqrt (2 * sum_list (map (\<lambda>x. x\<^sup>2) (concat (concat (cells Q)))))"
    by (simp add: cnorm_def)
  then show ?thesis
    using assms(2) by (simp add: frobenius_norm_def real_sqrt_mult)
qed

theorem norm_agreement_witness:
  "wf3 ex_img \<and> dim2 ex_img = 4 \<and> qm2cm ex_img None = Inr (ex_C, None) \<and>
   frobenius_norm ex_img = Inr (cnorm ex_C / sqrt 2)"
  using norm_agreement [OF wf3_ex_img _ qm2cm_ex_img]
  by (simp add: qm2cm_ex_img wf3_ex_img) (simp add: ex_img_def)

section \<open>The starting rank\<close>

text \<open>
  Claim C3, as the code has it. The starting rank is \<open>min N M\<close> when \<^verbatim>\<open>init_rank\<close> is
  absent, zero or greater than \<open>min N M\<close>, and it is \<^verbatim>\<open>init_rank\<close> itself otherwise; it
  never exceeds \<open>min N M\<close>, and it lies in \<open>[2, min N M]\<close> whenever \<^verbatim>\<open>init_rank\<close> does.
  Nothing raises a value below 2.
\<close>

theorem initial_rank_upper_clamp:
  "initial_rank None N M = int (min N M) \<and>
   (r = 0 \<or> int (min N M) < r \<longrightarrow> initial_rank (Some r) N M = int (min N M)) \<and>
   (r \<noteq> 0 \<and> r \<le> int (min N M) \<longrightarrow> initial_rank (Some r) N M = r) \<and>
   (2 \<le> r \<and> r \<le> int (min N M) \<longrightarrow>
      2 \<le> initial_rank (Some r) N M \<and> initial_rank (Some r) N M \<le> int (min N M)) \<and>
   initial_rank r0 N M \<le> int (min N M)"
  by (auto simp: initial_rank_def split: option.splits)

theorem initial_rank_upper_clamp_witness:
  "initial_rank None 4 6 = 4 \<and> initial_rank (Some 9) 4 6 = 4 \<and> initial_rank (Some 0) 4 6 = 4 \<and>
   initial_rank (Some 3) 4 6 = 3 \<and> initial_rank (Some (- 5)) 4 6 = - 5"
  using initial_rank_upper_clamp [of 4 6 9 None] initial_rank_upper_clamp [of 4 6 0 None]
    initial_rank_upper_clamp [of 4 6 3 None] initial_rank_upper_clamp [of 4 6 "- 5" None]
  by simp

text \<open>The claim as the specification states it fails for \<^verbatim>\<open>init_rank = 1\<close> on a 4 x 4 image:
  the rank used is 1, not 2.\<close>

theorem initial_rank_not_raised_to_2:
  "initial_rank (Some 1) 4 4 = 1 \<and> \<not> (2 \<le> initial_rank (Some 1) 4 4)"
  by (simp add: initial_rank_def)

section \<open>The completion loop\<close>

text \<open>
  Claim C1, which the code does not meet. The array \<^verbatim>\<open>norms\<close> has \<open>max_iter + 1\<close> entries
  and the pass with \<open>ix = max_iter\<close> writes entry \<open>max_iter + 1\<close>, so the branch
  \<^verbatim>\<open>elif ix >= max_iter\<close> is never reached: a run that does not meet the tolerance ends in
  \<^verbatim>\<open>IndexError\<close>. With \<open>max_iter = 0\<close> every call raises; on \<open>ex_img\<close> the exception is
  \<^verbatim>\<open>IndexError\<close>, and so it is on the black image with \<open>max_iter = 1\<close>, in the second pass.
\<close>

theorem exhaustion_raises:
  "(\<exists>err. lrqmc L R g entropy qmat msk init_rank reg_coef 0 rel_tol rot rank_mult return_norms
             random_state = Inl err) \<and>
   lrqmc diag_linalg zero_rng 0 0 ex_img ex_mask None (1 / 1000) 0 (1 / 1000) 10 (9 / 10) False (Some 0)
     = Inl IndexError \<and>
   lrqmc diag_linalg zero_rng 0 0 bl_img ex_mask None (1 / 1000) 1 (1 / 1000) 10 (9 / 10) False (Some 0)
     = Inl IndexError"
proof -
  have "\<exists>err. lrqmc L R g entropy qmat msk init_rank reg_coef 0 rel_tol rot rank_mult return_norms
             random_state = Inl err"
    using lrqmc_max_iter_0 [of L R g entropy qmat msk init_rank reg_coef rel_tol rot rank_mult
        return_norms random_state]
    by (cases "lrqmc L R g entropy qmat msk init_rank reg_coef 0 rel_tol rot rank_mult return_norms
             random_state") auto
  then show ?thesis
    by (simp add: ex_run_0 bl_run_1)
qed

text \<open>
  Claim C5. For a well-formed image and mask, every pass through the loop body leaves the
  entries of \<open>X\<close> at the four copies of an observed position equal to those of \<open>X0\<close>, the
  quaternion read back from \<open>X\<close> there is the input's, and so is the one in the image
  \<^verbatim>\<open>lrqmc\<close> returns.
\<close>

theorem mask_pinning:
  assumes "wf3 qmat" and "wf2 msk"
  shows "(\<forall>P s0 s s1 i j.
            lrqmc_init R g entropy qmat msk init_rank reg_coef max_iter rel_tol rot rank_mult
              random_state = Inr (P, s0) \<and>
            lrqmc_step L P s = Inr s1 \<and> i < dim0 qmat \<and> j < dim1 qmat \<and> at2 msk i j \<longrightarrow>
            at2 (s_X s1) i j = at2 (p_X0 P) i j \<and>
            at2 (s_X s1) i (dim1 qmat + j) = at2 (p_X0 P) i (dim1 qmat + j) \<and>
            at2 (s_X s1) (dim0 qmat + i) j = at2 (p_X0 P) (dim0 qmat + i) j \<and>
            at2 (s_X s1) (dim0 qmat + i) (dim1 qmat + j) = at2 (p_X0 P) (dim0 qmat + i) (dim1 qmat + j) \<and>
            (\<exists>Q1. cm2qm (s_X s1) = Inr Q1 \<and> cells Q1 ! i ! j = cells qmat ! i ! j)) \<and>
         (\<forall>Q1 U V ns i j.
            lrqmc L R g entropy qmat msk init_rank reg_coef max_iter rel_tol rot rank_mult
              return_norms random_state = Inr (Q1, U, V, ns) \<and>
            i < dim0 qmat \<and> j < dim1 qmat \<and> at2 msk i j \<longrightarrow>
            cells Q1 ! i ! j = cells qmat ! i ! j)"
proof (intro conjI allI impI)
  fix P s0 s s1 i j
  assume a: "lrqmc_init R g entropy qmat msk init_rank reg_coef max_iter rel_tol rot rank_mult
              random_state = Inr (P, s0) \<and>
            lrqmc_step L P s = Inr s1 \<and> i < dim0 qmat \<and> j < dim1 qmat \<and> at2 msk i j"
  then have init: "lrqmc_init R g entropy qmat msk init_rank reg_coef max_iter rel_tol rot rank_mult
              random_state = Inr (P, s0)"
    and step: "lrqmc_step L P s = Inr s1" and ij: "i < dim0 qmat" "j < dim1 qmat" and obs: "at2 msk i j"
    by simp_all
  note p = pinned_after_step [OF assms init step ij obs]
  show "at2 (s_X s1) i j = at2 (p_X0 P) i j" by (rule p(1))
  show "at2 (s_X s1) i (dim1 qmat + j) = at2 (p_X0 P) i (dim1 qmat + j)" by (rule p(2))
  show "at2 (s_X s1) (dim0 qmat + i) j = at2 (p_X0 P) (dim0 qmat + i) j" by (rule p(3))
  show "at2 (s_X s1) (dim0 qmat + i) (dim1 qmat + j) = at2 (p_X0 P) (dim0 qmat + i) (dim1 qmat + j)"
    by (rule p(4))
  show "\<exists>Q1. cm2qm (s_X s1) = Inr Q1 \<and> cells Q1 ! i ! j = cells qmat ! i ! j" by (rule p(5))
next
  fix Q1 U V ns i j
  assume a: "lrqmc L R g entropy qmat msk init_rank reg_coef max_iter rel_tol rot rank_mult
              return_norms random_state = Inr (Q1, U, V, ns) \<and>
            i < dim0 qmat \<and> j < dim1 qmat \<and> at2 msk i j"
  then have ij: "i < dim0 qmat" "j < dim1 qmat" and obs: "at2 msk i j"
    and run: "lrqmc L R g entropy qmat msk init_rank reg_coef max_iter rel_tol rot rank_mult
              return_norms random_state = Inr (Q1, U, V, ns)" by simp_all
  from lrqmc_Inr [OF run] obtain P s0 sf where
    init: "lrqmc_init R g entropy qmat msk init_rank reg_coef max_iter rel_tol rot rank_mult
             random_state = Inr (P, s0)" and
    loop: "lrqmc_loop L P s0 = Inr sf" and bk: "cm2qm (s_X sf) = Inr Q1"
    by blast
  have "s_flag s0" using lrqmc_init_Inr [OF init] by auto
  from lrqmc_loop_last_step [OF loop this] obtain s' where "lrqmc_step L P s' = Inr sf" by blast
  from pinned_after_step(5) [OF assms init this ij obs] bk
  show "cells Q1 ! i ! j = cells qmat ! i ! j" by simp
qed

theorem mask_pinning_witness:
  "wf3 ex_img \<and> wf2 ex_mask \<and>
   lrqmc_init zero_rng 0 0 ex_img ex_mask None (1 / 1000) 3 (1 / 1000) 10 (9 / 10) (Some 0)
     = Inr (ex_P 3, ex_s [cnorm ex_C, 0, 0, 0] 0 True) \<and>
   lrqmc_step diag_linalg (ex_P 3) (ex_s [cnorm ex_C, 0, 0, 0] 0 True)
     = Inr (ex_s [cnorm ex_C, cnorm ex_C, 0, 0] 0 False) \<and>
   lrqmc diag_linalg zero_rng 0 0 ex_img ex_mask None (1 / 1000) 3 (1 / 1000) 10 (9 / 10) True (Some 0)
     = Inr (ex_img, Z42, Z24, Some [cnorm ex_C, cnorm ex_C, 0, 0]) \<and>
   at2 ex_mask 0 1 \<and>
   at2 (s_X (ex_s [cnorm ex_C, cnorm ex_C, 0, 0] 0 False)) 0 1 = at2 (p_X0 (ex_P 3)) 0 1 \<and>
   at2 (s_X (ex_s [cnorm ex_C, cnorm ex_C, 0, 0] 0 False)) 0 3 = at2 (p_X0 (ex_P 3)) 0 3 \<and>
   cells ex_img ! 0 ! 1 = [0, 2, 0, 0]"
  using mask_pinning [OF wf3_ex_img wf2_ex_mask, of zero_rng 0 0 None "1 / 1000" 3 "1 / 1000" 10
      "9 / 10" "Some 0" diag_linalg True]
    ex_init_3 [of 0 0] ex_step_3 ex_run_3 [of 0 0] wf3_ex_img wf2_ex_mask
  by (simp add: ex_mask_def at2_def ex_s_def ex_P_def ex_img_def)

text \<open>
  Claim C4, as the code has it. When \<^verbatim>\<open>lrqmc\<close> returns the array \<^verbatim>\<open>norms\<close>, the array has
  \<open>max_iter + 1\<close> entries whatever the number \<open>k\<close> of passes performed, and \<open>k \<le> max_iter\<close>.
  For every \<open>i \<le> k\<close>, entry \<open>i\<close> is the norm of \<open>X - U V\<close> in the state after \<open>i\<close> passes, it
  stands in that state's array already and is not changed afterwards. The entries after
  \<open>k\<close> are the zeros the array was allocated with.
\<close>

theorem norms_array_preallocated:
  assumes "lrqmc L R g entropy qmat msk init_rank reg_coef max_iter rel_tol rot rank_mult True
             random_state = Inr (Q1, U, V, ns)"
  shows "\<exists>P s0 sf norms.
           lrqmc_init R g entropy qmat msk init_rank reg_coef max_iter rel_tol rot rank_mult
             random_state = Inr (P, s0) \<and>
           lrqmc_loop L P s0 = Inr sf \<and> ns = Some norms \<and> norms = s_norms sf \<and>
           length norms = nat (max_iter + 1) \<and> s_ix sf + 1 \<le> nat max_iter \<and>
           lrqmc_steps L P (s_ix sf + 1) s0 = Inr sf \<and>
           (\<forall>i. i \<le> s_ix sf + 1 \<longrightarrow>
              (\<exists>si. lrqmc_steps L P i s0 = Inr si \<and>
                    residual (s_X si) (s_U si) (s_V si) = Inr (norms ! i) \<and>
                    s_norms si ! i = norms ! i)) \<and>
           (\<forall>i. s_ix sf + 1 < i \<and> i < nat (max_iter + 1) \<longrightarrow> norms ! i = 0)"
proof -
  from lrqmc_Inr [OF assms] obtain P s0 sf where
    init: "lrqmc_init R g entropy qmat msk init_rank reg_coef max_iter rel_tol rot rank_mult
             random_state = Inr (P, s0)" and
    loop: "lrqmc_loop L P s0 = Inr sf" and ns: "ns = Some (s_norms sf)"
    by auto
  from lrqmc_init_Inr [OF init] obtain n0 where
    mi: "0 \<le> max_iter" and r0: "residual (s_X s0) (s_U s0) (s_V s0) = Inr n0" and
    n0: "s_norms s0 = (replicate (nat (max_iter + 1)) 0)[0 := n0]" and
    ix0: "s_ix s0 = 0" and fl: "s_flag s0"
    by auto
  have len0: "length (s_norms s0) = nat (max_iter + 1)" by (simp add: n0)
  from lrqmc_loop_trace [OF loop fl] have
    len: "length (s_norms sf) = nat (max_iter + 1)" and
    k: "s_ix sf + 1 < nat (max_iter + 1)" and
    fin: "lrqmc_steps L P (s_ix sf + 1) s0 = Inr sf" and
    keep: "s_norms sf ! 0 = s_norms s0 ! 0" and
    tr: "\<And>i. 0 < i \<Longrightarrow> i \<le> s_ix sf + 1 \<Longrightarrow>
           \<exists>si. lrqmc_steps L P i s0 = Inr si \<and>
                residual (s_X si) (s_U si) (s_V si) = Inr (s_norms sf ! i) \<and>
                s_norms si ! i = s_norms sf ! i" and
    pad: "\<And>i. s_ix sf + 1 < i \<Longrightarrow> s_norms sf ! i = s_norms s0 ! i"
    by (simp_all add: ix0 len0)
  have first: "s_norms s0 ! 0 = n0" using mi by (simp add: n0)
  have rec: "\<exists>si. lrqmc_steps L P i s0 = Inr si \<and>
                residual (s_X si) (s_U si) (s_V si) = Inr (s_norms sf ! i) \<and>
                s_norms si ! i = s_norms sf ! i" if "i \<le> s_ix sf + 1" for i
  proof (cases "i = 0")
    case True
    then show ?thesis using r0 keep first by simp
  next
    case False
    then show ?thesis using tr [of i] that by simp
  qed
  have zero: "s_norms sf ! i = 0" if "s_ix sf + 1 < i" "i < nat (max_iter + 1)" for i
    using pad [OF that(1)] that by (simp add: n0)
  have le: "s_ix sf + 1 \<le> nat max_iter" using k mi by linarith
  show ?thesis
    using init loop ns len le fin rec zero by auto
qed

theorem norms_array_preallocated_witness:
  "lrqmc diag_linalg zero_rng 0 0 ex_img ex_mask None (1 / 1000) 3 (1 / 1000) 10 (9 / 10) True (Some 0)
     = Inr (ex_img, Z42, Z24, Some [cnorm ex_C, cnorm ex_C, 0, 0]) \<and>
   (\<exists>P s0 sf.
      lrqmc_init zero_rng 0 0 ex_img ex_mask None (1 / 1000) 3 (1 / 1000) 10 (9 / 10) (Some 0)
        = Inr (P, s0) \<and>
      lrqmc_loop diag_linalg P s0 = Inr sf \<and> s_norms sf = [cnorm ex_C, cnorm ex_C, 0, 0] \<and>
      lrqmc_steps diag_linalg P (s_ix sf + 1) s0 = Inr sf)"
  using norms_array_preallocated [OF ex_run_3 [of 0 0]] ex_run_3 [of 0 0]
  by auto

text \<open>
  The claim as the specification states it fails on \<open>ex_img\<close> with \<open>max_iter = 3\<close>: the loop
  stops after its first pass (iterations 0 and 1), and the array returned has four entries,
  the last two never recorded.
\<close>

theorem norms_array_longer_than_run:
  "lrqmc diag_linalg zero_rng 0 0 ex_img ex_mask None (1 / 1000) 3 (1 / 1000) 10 (9 / 10) True (Some 0)
     = Inr (ex_img, Z42, Z24, Some [cnorm ex_C, cnorm ex_C, 0, 0]) \<and>
   lrqmc_init zero_rng 0 0 ex_img ex_mask None (1 / 1000) 3 (1 / 1000) 10 (9 / 10) (Some 0)
     = Inr (ex_P 3, ex_s [cnorm ex_C, 0, 0, 0] 0 True) \<and>
   lrqmc_step diag_linalg (ex_P 3) (ex_s [cnorm ex_C, 0, 0, 0] 0 True)
     = Inr (ex_s [cnorm ex_C, cnorm ex_C, 0, 0] 0 False) \<and>
   lrqmc_loop diag_linalg (ex_P 3) (ex_s [cnorm ex_C, 0, 0, 0] 0 True)
     = Inr (ex_s [cnorm ex_C, cnorm ex_C, 0, 0] 0 False) \<and>
   s_ix (ex_s [cnorm ex_C, cnorm ex_C, 0, 0] 0 False) + 2 = 2 \<and>
   length [cnorm ex_C, cnorm ex_C, 0, 0] = 4 \<and>
   length [cnorm ex_C, cnorm ex_C, 0, 0] \<noteq> s_ix (ex_s [cnorm ex_C, cnorm ex_C, 0, 0] 0 False) + 2"
  by (simp add: ex_run_3 ex_init_3 ex_step_3 ex_loop_3) (simp add: ex_s_def)

text \<open>
  Claim C2, as the code has it. In every pass, after the factor updates, \<open>X\<close> is rebuilt
  from \<open>X0\<close>: it has the shape of \<open>X0\<close>, an entry whose tiled mask is True is the entry of
  \<open>X0\<close>, and an entry whose tiled mask is False is the entry of \<open>X0\<close> plus the entry of the
  product of the updated factors (\<^verbatim>\<open>+=\<close>). So an unobserved entry equals the estimate
  exactly where the input holds 0.
\<close>

theorem reimpose_adds_estimate:
  assumes "lrqmc_step L P s = Inr s1"
  shows "\<exists>U1 V1 UV mc.
           update_U L (s_X s) (s_V s) (s_c_rank s) (p_reg_coef P) = Inr U1 \<and>
           update_V L (s_X s) U1 (s_c_rank s) (p_reg_coef P) = Inr V1 \<and>
           dot U1 V1 = Inr UV \<and> p_mask_c P = Some mc \<and>
           shape0 (s_X s1) = shape0 (p_X0 P) \<and> shape1 (s_X s1) = shape1 (p_X0 P) \<and>
           (\<forall>i j. i < shape0 (p_X0 P) \<and> j < shape1 (p_X0 P) \<longrightarrow>
              at2 (s_X s1) i j =
                (if at2 mc i j then at2 (p_X0 P) i j else at2 (p_X0 P) i j + at2 UV i j)) \<and>
           (\<forall>i j. i < shape0 (p_X0 P) \<and> j < shape1 (p_X0 P) \<and> \<not> at2 mc i j \<and>
                  at2 (p_X0 P) i j = 0 \<longrightarrow> at2 (s_X s1) i j = at2 UV i j)"
proof -
  from lrqmc_step_Inr [OF assms] obtain U1 V1 where
    uU: "update_U L (s_X s) (s_V s) (s_c_rank s) (p_reg_coef P) = Inr U1" and
    uV: "update_V L (s_X s) U1 (s_c_rank s) (p_reg_coef P) = Inr V1" and
    re: "reimpose (p_X0 P) (p_mask_c P) U1 V1 = Inr (s_X s1)"
    by blast
  from reimpose_Inr [OF re] obtain mc UV where
    mc: "p_mask_c P = Some mc" and d: "dot U1 V1 = Inr UV" and
    X1: "s_X s1 = mk2 (shape0 (p_X0 P)) (shape1 (p_X0 P))
           (\<lambda>i j. if at2 mc i j then at2 (p_X0 P) i j else at2 (p_X0 P) i j + at2 UV i j)"
    by blast
  show ?thesis
    apply (rule exI [of _ U1], rule exI [of _ V1], rule exI [of _ UV], rule exI [of _ mc])
    using uU uV d mc by (simp add: X1)
qed

theorem reimpose_adds_estimate_witness:
  "lrqmc_step diag_linalg (ex_P 3) (ex_s [cnorm ex_C, 0, 0, 0] 0 True)
     = Inr (ex_s [cnorm ex_C, cnorm ex_C, 0, 0] 0 False) \<and>
   (\<exists>U1 V1 UV mc.
      update_U diag_linalg (s_X (ex_s [cnorm ex_C, 0, 0, 0] 0 True))
        (s_V (ex_s [cnorm ex_C, 0, 0, 0] 0 True)) (s_c_rank (ex_s [cnorm ex_C, 0, 0, 0] 0 True))
        (p_reg_coef (ex_P 3)) = Inr U1 \<and>
      update_V diag_linalg (s_X (ex_s [cnorm ex_C, 0, 0, 0] 0 True)) U1
        (s_c_rank (ex_s [cnorm ex_C, 0, 0, 0] 0 True)) (p_reg_coef (ex_P 3)) = Inr V1 \<and>
      dot U1 V1 = Inr UV \<and> p_mask_c (ex_P 3) = Some mc \<and>
      shape0 (s_X (ex_s [cnorm ex_C, cnorm ex_C, 0, 0] 0 False)) = shape0 (p_X0 (ex_P 3)) \<and>
      shape1 (s_X (ex_s [cnorm ex_C, cnorm ex_C, 0, 0] 0 False)) = shape1 (p_X0 (ex_P 3)) \<and>
      (\<forall>i j. i < shape0 (p_X0 (ex_P 3)) \<and> j < shape1 (p_X0 (ex_P 3)) \<longrightarrow>
         at2 (s_X (ex_s [cnorm ex_C, cnorm ex_C, 0, 0] 0 False)) i j =
           (if at2 mc i j then at2 (p_X0 (ex_P 3)) i j
            else at2 (p_X0 (ex_P 3)) i j + at2 UV i j)) \<and>
      (\<forall>i j. i < shape0 (p_X0 (ex_P 3)) \<and> j < shape1 (p_X0 (ex_P 3)) \<and> \<not> at2 mc i j \<and>
             at2 (p_X0 (ex_P 3)) i j = 0 \<longrightarrow>
         at2 (s_X (ex_s [cnorm ex_C, cnorm ex_C, 0, 0] 0 False)) i j = at2 UV i j))"
  by (rule conjI [OF ex_step_3 reimpose_adds_estimate [OF ex_step_3]])

text \<open>
  The claim as the specification states it fails on \<open>ex_img\<close>, whose pixel (0, 0) is missing
  and holds 1: after the pass the entry of \<open>X\<close> there is 1, and the entry of the estimate is 0.
\<close>

theorem unobserved_entry_not_overwritten:
  "lrqmc_step diag_linalg (ex_P 3) (ex_s [cnorm ex_C, 0, 0, 0] 0 True)
     = Inr (ex_s [cnorm ex_C, cnorm ex_C, 0, 0] 0 False) \<and>
   update_U diag_linalg ex_C Z24 2 (1 / 1000) = Inr Z42 \<and>
   update_V diag_linalg ex_C Z42 2 (1 / 1000) = Inr Z24 \<and>
   dot Z42 Z24 = Inr Z44 \<and>
   p_mask_c (ex_P 3) = Some ex_mask_c \<and> \<not> at2 ex_mask_c 0 0 \<and>
   at2 Z44 0 0 = 0 \<and>
   at2 (s_X (ex_s [cnorm ex_C, cnorm ex_C, 0, 0] 0 False)) 0 0 = 1 \<and>
   at2 (s_X (ex_s [cnorm ex_C, cnorm ex_C, 0, 0] 0 False)) 0 0 \<noteq> at2 Z44 0 0"
  by (simp add: ex_step_3 ex_update_U ex_update_V dot_Z42_Z24)
     (simp add: ex_P_def ex_s_def ex_mask_c_def ex_C_def Z44_def mk_eval at2_def)



section \<open>Seeding\<close>

text \<open>
  Claim C10. With an integer seed, the state before the loop and the result of \<^verbatim>\<open>lrqmc\<close>
  do not depend on the state \<open>g\<close> the global generator was in, nor on the system entropy:
  two calls with the same arguments give the same. The factors \<open>U\<close> and \<open>V\<close> the loop starts
  from are the same for two calls with the same seed and \<^verbatim>\<open>init_rank\<close> on images of the same
  shape, whatever the pixels, the masks and the other parameters.
\<close>

theorem seeded_initialisation:
  "lrqmc_init R g1 e1 qmat msk r0 reg mi tol rot gam (Some seed)
     = lrqmc_init R g2 e2 qmat msk r0 reg mi tol rot gam (Some seed) \<and>
   lrqmc L R g1 e1 qmat msk r0 reg mi tol rot gam rn (Some seed)
     = lrqmc L R g2 e2 qmat msk r0 reg mi tol rot gam rn (Some seed) \<and>
   (lrqmc_init R g1 e1 qa ma r0 rega mia tola rota gama (Some seed) = Inr (Pa, sa) \<and>
    lrqmc_init R g2 e2 qb mb r0 regb mib tolb rotb gamb (Some seed) = Inr (Pb, sb) \<and>
    dim0 qa = dim0 qb \<and> dim1 qa = dim1 qb \<longrightarrow>
    s_U sa = s_U sb \<and> s_V sa = s_V sb)"
proof (intro conjI impI)
  show i: "lrqmc_init R g1 e1 qmat msk r0 reg mi tol rot gam (Some seed)
     = lrqmc_init R g2 e2 qmat msk r0 reg mi tol rot gam (Some seed)"
    by (simp add: lrqmc_init_def np_random_seed_def)
  show "lrqmc L R g1 e1 qmat msk r0 reg mi tol rot gam rn (Some seed)
     = lrqmc L R g2 e2 qmat msk r0 reg mi tol rot gam rn (Some seed)"
    by (simp add: lrqmc_def i)
next
  assume a: "lrqmc_init R g1 e1 qa ma r0 rega mia tola rota gama (Some seed) = Inr (Pa, sa) \<and>
    lrqmc_init R g2 e2 qb mb r0 regb mib tolb rotb gamb (Some seed) = Inr (Pb, sb) \<and>
    dim0 qa = dim0 qb \<and> dim1 qa = dim1 qb"
  then have ia: "lrqmc_init R g1 e1 qa ma r0 rega mia tola rota gama (Some seed) = Inr (Pa, sa)"
    and ib: "lrqmc_init R g2 e2 qb mb r0 regb mib tolb rotb gamb (Some seed) = Inr (Pb, sb)"
    and d: "dim0 qa = dim0 qb" "dim1 qa = dim1 qb" by simp_all
  from lrqmc_init_Inr [OF ia] obtain ga ga' where
    "np_random_seed R (Some seed) e1 g1 = Inr ga"
    "init_factors R (dim0 qa) (dim1 qa) (initial_rank r0 (dim0 qa) (dim1 qa)) ga
       = Inr (s_U sa, s_V sa, ga')"
    by auto
  moreover from lrqmc_init_Inr [OF ib] obtain gb gb' where
    "np_random_seed R (Some seed) e2 g2 = Inr gb"
    "init_factors R (dim0 qb) (dim1 qb) (initial_rank r0 (dim0 qb) (dim1 qb)) gb
       = Inr (s_U sb, s_V sb, gb')"
    by auto
  ultimately show "s_U sa = s_U sb" "s_V sa = s_V sb"
    using d by (auto simp: np_random_seed_def split: if_splits)
qed

theorem seeded_initialisation_witness:
  "lrqmc_init script_rng 5 1 ex3_img ex3_mask None (1 / 4) 5 1 10 (9 / 10) (Some 0)
     = Inr (ex3_P, ex3_s0) \<and>
   lrqmc_init script_rng 7 2 bl3_img ex3_mask None (1 / 1000) 2 (1 / 1000) 5 (1 / 2) (Some 0)
     = Inr (\<lparr>p_X0 = Z66, p_mask_c = Some ex3_mask_c, p_reg_coef = 1 / 1000, p_max_iter = 2,
              p_rel_tol = 1 / 1000, p_rot = 5, p_rank_mult = 1 / 2\<rparr>,
            \<lparr>s_X = Z66, s_U = Z63, s_V = V36, s_c_rank = 3, s_norms = [0, 0, 0], s_ix = 0,
              s_flag = True\<rparr>) \<and>
   dim0 ex3_img = dim0 bl3_img \<and> dim1 ex3_img = dim1 bl3_img \<and>
   s_U ex3_s0 = Z63 \<and> s_V ex3_s0 = V36 \<and>
   lrqmc diag_linalg script_rng 5 1 ex3_img ex3_mask None (1 / 4) 5 1 10 (9 / 10) True (Some 0)
     = lrqmc diag_linalg script_rng 7 2 ex3_img ex3_mask None (1 / 4) 5 1 10 (9 / 10) True (Some 0)"
  using seeded_initialisation [of script_rng 5 1 ex3_img ex3_mask None "1 / 4" 5 1 10 "9 / 10" 0
      7 2 diag_linalg True ex3_img ex3_mask "1 / 4" 5 1 10 "9 / 10" ex3_P ex3_s0
      bl3_img ex3_mask "1 / 1000" 2 "1 / 1000" 5 "1 / 2"]
    ex3_init [of 5 1] bl3_init [of 7 2]
  by (simp add: ex3_img_def mk_eval bl3_img_def ex3_s0_def)

end
